theory Spec2Isabelle
  imports Complex_Main
begin

section \<open>Nearest grid point lookup of \<^verbatim>\<open>dmidc/harmonie/utils.py\<close>\<close>

text \<open>
  The development embeds the three functions of \<^verbatim>\<open>src/dmidc/harmonie/utils.py\<close>:
  \<^verbatim>\<open>cache_to_pickle\<close>, \<^verbatim>\<open>_wrap_lon\<close> and \<^verbatim>\<open>sel_nearest_to_latlon_pt\<close>.

  Numbers. Longitudes, latitudes and the accumulated rotation are Python floats (IEEE
  binary64; \<^verbatim>\<open>applied_rotation\<close> starts as \<^verbatim>\<open>0.0\<close>). A finite double is the real
  number it denotes; infinities and NaN are not modelled. \<^verbatim>\<open>_wrap_lon\<close> is modelled
  twice. \<open>wrap_loop_f64\<close> is the loop as the code runs it: every \<^verbatim>\<open>+= 360\<close> and
  \<^verbatim>\<open>-= 360\<close> rounds its exact result to the nearest double, and the loop may run forever.
  \<open>wrap_loop\<close> is the same loop in exact arithmetic; it is what the loop on doubles
  computes whenever no addition rounds (lemma \<open>wrap_lon_f64_exact\<close>), as
  for integer-valued longitudes of moderate size. The model of
  \<^verbatim>\<open>sel_nearest_to_latlon_pt\<close> calls the loop in exact arithmetic: what is stated of it
  concerns the order of its checks, the caches and the slicing, and the reported
  longitude up to the rounding of the float operations.

  Exceptions. Every \<^verbatim>\<open>raise\<close> of the source, and every exception of the Python
  runtime or of a library that the modelled paths can reach, is a constructor of
  \<open>error\<close>; a function that can raise returns \<open>error + 'a\<close>. The source raises
  \<^verbatim>\<open>ValueError\<close> at four places; the constructors keep them apart by their message.
\<close>

datatype error =
    ValueError_no_suite_name    \<comment> \<open>line 90: \<^verbatim>\<open>dataset must have a suite_name attribute\<close>\<close>
  | TypeError_pt_not_dict       \<comment> \<open>line 93: \<^verbatim>\<open>pt_latlon must be a dict ...\<close>\<close>
  | KeyError string             \<comment> \<open>line 95: \<^verbatim>\<open>pt["lon"]\<close>, \<^verbatim>\<open>pt["lat"]\<close> on a dict without the key\<close>
  | ValueError_wrap             \<comment> \<open>lines 55 and 61: the value cannot be placed within the bounds\<close>
  | ValueError_lon_bounds       \<comment> \<open>line 122: longitude not within the domain bounds\<close>
  | ValueError_lat_bounds       \<comment> \<open>line 128: latitude not within the domain bounds\<close>
  | UnboundLocalError string    \<comment> \<open>a local variable read before any assignment to it\<close>
  | IndexError                  \<comment> \<open>line 137: \<^verbatim>\<open>isel\<close> with an index outside a dimension\<close>
  | ValueError_no_such_dim      \<comment> \<open>line 137: \<^verbatim>\<open>isel\<close> on a dimension the dataset does not have\<close>
  | ValueError_empty_grid       \<comment> \<open>line 101: \<^verbatim>\<open>cKDTree\<close> of an empty point list\<close>
  | ZeroDivisionError           \<comment> \<open>line 134: \<^verbatim>\<open>idx_nearest % ny\<close> with \<^verbatim>\<open>ny == 0\<close>\<close>

subsection \<open>Longitude wrapping in exact arithmetic\<close>

text \<open>
  The \<^verbatim>\<open>while\<close> loop of \<^verbatim>\<open>_wrap_lon\<close> (lines 52 to 62), with the loop variables
  \<^verbatim>\<open>lon\<close> and \<^verbatim>\<open>applied_rotation\<close> as arguments. The branches are the source's, in the
  source's order: in the \<^verbatim>\<open>elif\<close> branch the longitude is decremented before the guard
  is tested. The last \<open>else\<close> is the fall-through of \<^verbatim>\<open>if ... elif ...\<close> with no
  \<^verbatim>\<open>else\<close>: the loop would go round with an unchanged state.
\<close>

function wrap_loop :: "real \<Rightarrow> real \<Rightarrow> real \<Rightarrow> real \<Rightarrow> error + real \<times> real" where
  "wrap_loop lo hi lon applied_rotation =
     (if lon < lo \<or> lon > hi then
        (if lon < lo then
           (if applied_rotation < 0 then Inl ValueError_wrap
            else wrap_loop lo hi (lon + 360) (applied_rotation + 360))
         else if lon > hi then
           (let lon' = lon - 360 in
            if applied_rotation > 0 then Inl ValueError_wrap
            else wrap_loop lo hi lon' (applied_rotation - 360))
         else wrap_loop lo hi lon applied_rotation)
      else Inr (lon, applied_rotation))"
  by pat_completeness auto

text \<open>
  In exact arithmetic the loop terminates for all arguments: once a step in one direction has been
  taken the guard forbids a step in the other, and each step of a run in one direction
  brings the value 360 closer to the bound it is heading for. The measure counts the
  steps that are left in the current direction.
\<close>

definition wrap_measure :: "real \<times> real \<times> real \<times> real \<Rightarrow> nat" where
  "wrap_measure = (\<lambda>(lo, hi, lon, rot).
     if lon < lo then (if 0 \<le> rot then nat \<lceil>(lo - lon) / 360\<rceil> else 0)
     else if hi < lon then (if rot \<le> 0 then nat \<lceil>(lon - hi) / 360\<rceil> else 0)
     else 0)"

lemma ceil_step:
  fixes d :: real
  assumes "0 < d" and "e = d - 360"
  shows "nat \<lceil>e / 360\<rceil> < nat \<lceil>d / 360\<rceil>"
proof -
  have "e / 360 = d / 360 - 1" using assms(2) by simp
  then have "\<lceil>e / 360\<rceil> = \<lceil>d / 360\<rceil> - 1" by (simp only: ceiling_diff_one)
  moreover have "0 < \<lceil>d / 360\<rceil>" using assms(1) by simp
  ultimately show ?thesis by simp
qed

termination wrap_loop
proof (relation "measure wrap_measure", goal_cases)
  case 1
  show ?case by simp
next
  case (2 lo hi lon rot)
  then have d: "0 < lo - lon" by simp
  have "nat \<lceil>(lo - (lon + 360)) / 360\<rceil> < nat \<lceil>(lo - lon) / 360\<rceil>"
    by (rule ceil_step[OF d]) simp
  moreover have "0 < nat \<lceil>(lo - lon) / 360\<rceil>" using d by simp
  ultimately show ?case using 2
    by (simp add: wrap_measure_def)
next
  case (3 lo hi lon rot lon')
  then have d: "0 < lon - hi" by simp
  have "nat \<lceil>(lon - 360 - hi) / 360\<rceil> < nat \<lceil>(lon - hi) / 360\<rceil>"
    by (rule ceil_step[OF d]) simp
  moreover have "0 < nat \<lceil>(lon - hi) / 360\<rceil>" using d by simp
  ultimately show ?case using 3
    by (simp add: wrap_measure_def)
next
  case (4 lo hi lon rot)
  then show ?case by simp
qed

text \<open>
  \<^verbatim>\<open>_wrap_lon(lon, lon_bounds)\<close> (lines 36 to 64; an Isabelle name cannot start with an
  underscore). \<open>Inr (lon, applied_rotation)\<close> is the returned pair.
\<close>

definition wrap_lon :: "real \<Rightarrow> real \<times> real \<Rightarrow> error + real \<times> real" where
  "wrap_lon lon lon_bounds = wrap_loop (fst lon_bounds) (snd lon_bounds) lon 0"

declare wrap_loop.simps [simp del]

subsection \<open>Longitude wrapping on IEEE doubles\<close>

text \<open>
  Rounding to the nearest integer, ties to the even one.
\<close>

definition round_even :: "real \<Rightarrow> int" where
  "round_even x =
     (let f = \<lfloor>x\<rfloor> in
      if x - of_int f < 1 / 2 then f
      else if 1 / 2 < x - of_int f then f + 1
      else if even f then f else f + 1)"

text \<open>
  The binade of a positive number: \<open>binade_up x\<close> is the \<open>n\<close> with
  \<open>2 ^ n \<le> x < 2 ^ (n + 1)\<close> for \<open>x \<ge> 1\<close>, and \<open>binade_down x\<close> is the \<open>n\<close> with
  \<open>1 \<le> x * 2 ^ n < 2\<close> for \<open>0 < x < 1\<close>.
\<close>

function binade_up :: "real \<Rightarrow> nat" where
  "binade_up x = (if x < 2 then 0 else Suc (binade_up (x / 2)))"
  by pat_completeness auto

termination
proof (relation "measure (\<lambda>x. nat \<lfloor>x\<rfloor>)", goal_cases)
  case 1
  show ?case by simp
next
  case (2 x)
  then have "2 \<le> x" by simp
  then have "\<lfloor>x / 2\<rfloor> < \<lfloor>x\<rfloor>" "0 < \<lfloor>x\<rfloor>" by linarith+
  then show ?case by simp
qed

function binade_down :: "real \<Rightarrow> nat" where
  "binade_down x = (if x \<le> 0 \<or> 1 \<le> x then 0 else Suc (binade_down (2 * x)))"
  by pat_completeness auto

termination
proof (relation "measure (\<lambda>x. nat \<lceil>1 / x\<rceil>)", goal_cases)
  case 1
  show ?case by simp
next
  case (2 x)
  then have x: "0 < x" "x < 1" by simp_all
  then have "1 < 1 / x" by simp
  then have c: "2 \<le> \<lceil>1 / x\<rceil>" by linarith
  have "1 / (2 * x) = (1 / x) / 2" by simp
  also have "\<dots> \<le> of_int \<lceil>1 / x\<rceil> / 2" by (simp add: divide_right_mono)
  finally have "\<lceil>1 / (2 * x)\<rceil> \<le> \<lceil>of_int \<lceil>1 / x\<rceil> / (2::real)\<rceil>"
    by (rule ceiling_mono)
  also have "\<dots> < \<lceil>1 / x\<rceil>" using c by linarith
  finally show ?case using c x by simp
qed

declare binade_up.simps [simp del] binade_down.simps [simp del]

text \<open>
  The spacing of the doubles around \<open>x\<close>: 52 fraction bits below the leading bit,
  and the fixed spacing \<open>2 ^ - 1074\<close> of the subnormal range below \<open>2 ^ - 1022\<close>.
  \<open>f64_round x\<close> is the double nearest to \<open>x\<close>, ties to even: the result of a
  binary64 operation whose exact result is \<open>x\<close>. Overflow to infinity is not
  modelled; adding or subtracting 360 cannot overflow.
\<close>

definition f64_quantum :: "real \<Rightarrow> real" where
  "f64_quantum x =
     (if 1 \<le> \<bar>x\<bar> then 2 ^ binade_up \<bar>x\<bar> / 2 ^ 52
      else 1 / 2 ^ (min (binade_down \<bar>x\<bar>) 1022 + 52))"

definition f64_round :: "real \<Rightarrow> real" where
  "f64_round x = of_int (round_even (x / f64_quantum x)) * f64_quantum x"

text \<open>
  The \<^verbatim>\<open>while\<close> loop of \<^verbatim>\<open>_wrap_lon\<close> (lines 52 to 62) on doubles: the branches of
  \<open>wrap_loop\<close>, with every sum and difference rounded. \<open>None\<close> is a loop that never
  returns; \<open>Some (Inl e)\<close> is a raise and \<open>Some (Inr p)\<close> the returned pair.
\<close>

partial_function (option) wrap_loop_f64 ::
  "real \<Rightarrow> real \<Rightarrow> real \<Rightarrow> real \<Rightarrow> (error + real \<times> real) option" where
  "wrap_loop_f64 lo hi lon applied_rotation =
     (if lon < lo \<or> lon > hi then
        (if lon < lo then
           (if applied_rotation < 0 then Some (Inl ValueError_wrap)
            else wrap_loop_f64 lo hi (f64_round (lon + 360)) (f64_round (applied_rotation + 360)))
         else if lon > hi then
           (let lon' = f64_round (lon - 360) in
            if applied_rotation > 0 then Some (Inl ValueError_wrap)
            else wrap_loop_f64 lo hi lon' (f64_round (applied_rotation - 360)))
         else wrap_loop_f64 lo hi lon applied_rotation)
      else Some (Inr (lon, applied_rotation)))"

text \<open>\<^verbatim>\<open>_wrap_lon(lon, lon_bounds)\<close> (lines 36 to 64) on doubles.\<close>

definition wrap_lon_f64 :: "real \<Rightarrow> real \<times> real \<Rightarrow> (error + real \<times> real) option" where
  "wrap_lon_f64 lon lon_bounds = wrap_loop_f64 (fst lon_bounds) (snd lon_bounds) lon 0"

text \<open>
  Numbers on which the loop's arithmetic is exact: \<open>on_grid m x\<close> says that \<open>x\<close> is
  an integer multiple of \<open>2 ^ - m\<close> (an integer for \<open>m = 0\<close>), and \<open>f64_exact m x\<close>
  that the multiple fits the 53 bits of a double's significand. \<open>wrap_exact m lon a b\<close>
  are the arguments of \<^verbatim>\<open>_wrap_lon\<close> for which no addition of the loop rounds: the
  longitude is a multiple of \<open>2 ^ - m\<close> with \<open>m \<le> 42\<close>, and the longitude and both
  bounds are at most \<open>2 ^ 51 / 2 ^ m\<close> in magnitude. With them, the double that the
  Python literal \<^verbatim>\<open>-0.1\<close> denotes.
\<close>

definition on_grid :: "nat \<Rightarrow> real \<Rightarrow> bool" where
  "on_grid m x = (of_int \<lfloor>x * 2 ^ m\<rfloor> = x * 2 ^ m)"

definition f64_exact :: "nat \<Rightarrow> real \<Rightarrow> bool" where
  "f64_exact m x = (on_grid m x \<and> \<bar>x * 2 ^ m\<bar> < 2 ^ 53)"

definition wrap_exact :: "nat \<Rightarrow> real \<Rightarrow> real \<Rightarrow> real \<Rightarrow> bool" where
  "wrap_exact m lon a b =
     (m \<le> 42 \<and> on_grid m lon \<and> \<bar>lon\<bar> * 2 ^ m \<le> 2 ^ 51
      \<and> \<bar>a\<bar> * 2 ^ m \<le> 2 ^ 51 \<and> \<bar>b\<bar> * 2 ^ m \<le> 2 ^ 51)"

definition f64_minus_tenth :: real where
  "f64_minus_tenth = - 3602879701896397 / 36028797018963968"

subsection \<open>Datasets, query points and the two caches\<close>

text \<open>
  A dataset is modelled by what the function reads of it: the attribute
  \<^verbatim>\<open>suite_name\<close> (\<open>None\<close> when \<^verbatim>\<open>ds.attrs.get("suite_name")\<close> is \<^verbatim>\<open>None\<close>), the
  names of the two dimensions of the coordinate arrays in the order of their axes, and
  the arrays \<^verbatim>\<open>ds.lon\<close> and \<^verbatim>\<open>ds.lat\<close>, each a list of rows (the first axis indexes the
  rows). Data variables and further dimensions such as time play no part in the lookup
  and are left out; the sliced dataset is its pair of coordinate values.
\<close>

type_synonym array2d = "real list list"

record dataset =
  suite_name :: "string option"
  ds_dims :: "string \<times> string"
  ds_lon :: array2d
  ds_lat :: array2d

record ds_point =
  pt_lon :: real
  pt_lat :: real

text \<open>
  The argument \<^verbatim>\<open>pt\<close> is any Python object: a dict from keys to numbers, or something
  that is not a dict.
\<close>

datatype pt_arg = Dict "string \<rightharpoonup> real" | NotADict

text \<open>
  The value \<^verbatim>\<open>dict(tree=..., latlon_bounds=dict(lat=..., lon=...))\<close> that
  \<^verbatim>\<open>build_tree\<close> returns (line 106). A \<^verbatim>\<open>cKDTree\<close> is represented by the list of the
  points it was built from, in their order: the index a query returns is a position in
  this list.
\<close>

record lookup_info =
  tree :: "(real \<times> real) list"
  lat_bounds :: "real \<times> real"
  lon_bounds :: "real \<times> real"

text \<open>
  The state the function works on: the module's dict \<^verbatim>\<open>LOOKUP_INFO\<close> (line 8), the
  pickle files under \<^verbatim>\<open>FP_LOOKUP_INFO_ROOT\<close> by identifier, and the trace of what the
  function did to the file system and the log, in order: the test
  \<^verbatim>\<open>fp_pickle.exists()\<close>, \<^verbatim>\<open>pickle.load\<close>, the \<^verbatim>\<open>logger.info\<close> line of a build, and
  \<^verbatim>\<open>pickle.dump\<close>. Nothing but the modelled function changes the state.
\<close>

datatype io_event =
    PickleExists string
  | PickleLoad string
  | LogBuilding string
  | PickleDump string

record state =
  LOOKUP_INFO :: "string \<rightharpoonup> lookup_info"
  pickle_files :: "string \<rightharpoonup> lookup_info"
  io_events :: "io_event list"

text \<open>
  \<^verbatim>\<open>cache_to_pickle(identifier)(func)\<close>, the \<^verbatim>\<open>wrapper\<close> of lines 20 to 29. The
  decorated function takes no arguments; it is passed as a state transformer.
\<close>

definition cache_to_pickle ::
  "string \<Rightarrow> (state \<Rightarrow> (error + lookup_info) \<times> state) \<Rightarrow> state \<Rightarrow> (error + lookup_info) \<times> state" where
  "cache_to_pickle identifier func st =
     (let st1 = st\<lparr>io_events := io_events st @ [PickleExists identifier]\<rparr> in
      case pickle_files st1 identifier of
        Some obj \<Rightarrow> (Inr obj, st1\<lparr>io_events := io_events st1 @ [PickleLoad identifier]\<rparr>)
      | None \<Rightarrow>
          (case func st1 of
             (Inl e, st2) \<Rightarrow> (Inl e, st2)
           | (Inr result, st2) \<Rightarrow>
               (Inr result,
                st2\<lparr>pickle_files := (pickle_files st2)(identifier \<mapsto> result),
                    io_events := io_events st2 @ [PickleDump identifier]\<rparr>)))"

text \<open>
  The numpy operations of \<^verbatim>\<open>build_tree\<close>: \<^verbatim>\<open>.values.flatten()\<close> is row-major,
  \<^verbatim>\<open>.shape\<close> gives the lengths of the two axes, \<^verbatim>\<open>.min()\<close> and \<^verbatim>\<open>.max()\<close> run over all
  elements (they are only evaluated on non-empty arrays below).
\<close>

definition flatten :: "array2d \<Rightarrow> real list" where
  "flatten a = concat a"

definition shape :: "array2d \<Rightarrow> nat \<times> nat" where
  "shape a = (case a of [] \<Rightarrow> (0, 0) | row # _ \<Rightarrow> (length a, length row))"

definition amin :: "real list \<Rightarrow> real" where
  "amin xs = fold min (tl xs) (hd xs)"

definition amax :: "real list \<Rightarrow> real" where
  "amax xs = fold max (tl xs) (hd xs)"

text \<open>
  \<^verbatim>\<open>build_tree\<close> (lines 98 to 106), a closure over \<^verbatim>\<open>ds\<close> and \<^verbatim>\<open>identifier\<close>.
  \<^verbatim>\<open>cKDTree\<close> raises \<^verbatim>\<open>ValueError\<close> on an empty point list, after the log line was
  written.
\<close>

definition build_tree :: "dataset \<Rightarrow> string \<Rightarrow> state \<Rightarrow> (error + lookup_info) \<times> state" where
  "build_tree ds identifier st =
     (let st1 = st\<lparr>io_events := io_events st @ [LogBuilding identifier]\<rparr>;
          vals = zip (flatten (ds_lon ds)) (flatten (ds_lat ds))
      in if vals = [] then (Inl ValueError_empty_grid, st1)
         else (Inr \<lparr>tree = vals,
                     lat_bounds = (amin (flatten (ds_lat ds)), amax (flatten (ds_lat ds))),
                     lon_bounds = (amin (flatten (ds_lon ds)), amax (flatten (ds_lon ds)))\<rparr>,
               st1))"

text \<open>
  \<^verbatim>\<open>lookup_tree.query(q)\<close>: the position of a point at the least Euclidean distance
  from \<open>q\<close>. Squared distances are compared, which orders the points as the distances
  do. Among several nearest points the first is taken; the library does not document
  which it returns, and no statement below depends on the choice.
\<close>

definition sqdist :: "real \<times> real \<Rightarrow> real \<times> real \<Rightarrow> real" where
  "sqdist p q = (fst p - fst q)\<^sup>2 + (snd p - snd q)\<^sup>2"

fun argmin :: "real list \<Rightarrow> nat" where
  "argmin [] = 0"
| "argmin [d] = 0"
| "argmin (d # ds) = (let k = argmin ds in if d \<le> ds ! k then 0 else Suc k)"

definition kd_query :: "(real \<times> real) list \<Rightarrow> real \<times> real \<Rightarrow> nat" where
  "kd_query pts q = argmin (map (sqdist q) pts)"

text \<open>
  \<^verbatim>\<open>ds.isel(x=i, y=j)\<close> (line 137) selects by the names of the dimensions, whatever
  the order of the axes: it raises \<^verbatim>\<open>ValueError\<close> when the dataset has no such dimension
  and \<^verbatim>\<open>IndexError\<close> when an index is outside its dimension.
\<close>

definition index2 :: "array2d \<Rightarrow> nat \<Rightarrow> nat \<Rightarrow> error + real" where
  "index2 a r c =
     (if r < length a then (if c < length (a ! r) then Inr (a ! r ! c) else Inl IndexError)
      else Inl IndexError)"

definition cell :: "dataset \<Rightarrow> nat \<Rightarrow> nat \<Rightarrow> error + ds_point" where
  "cell ds r c =
     (case index2 (ds_lon ds) r c of
        Inl e \<Rightarrow> Inl e
      | Inr lo \<Rightarrow> (case index2 (ds_lat ds) r c of
                     Inl e \<Rightarrow> Inl e
                   | Inr la \<Rightarrow> Inr \<lparr>pt_lon = lo, pt_lat = la\<rparr>))"

definition isel :: "dataset \<Rightarrow> nat \<Rightarrow> nat \<Rightarrow> error + ds_point" where
  "isel ds x y =
     (if ds_dims ds = (''x'', ''y'') then cell ds x y
      else if ds_dims ds = (''y'', ''x'') then cell ds y x
      else Inl ValueError_no_such_dim)"

text \<open>
  Lines 114 to 142 of \<^verbatim>\<open>sel_nearest_to_latlon_pt\<close>, from the cached
  \<^verbatim>\<open>lookup_info\<close> on. The locals \<^verbatim>\<open>lon_wrapped\<close> and \<^verbatim>\<open>applied_lon_offset\<close> are assigned
  in the \<^verbatim>\<open>if wrap_lon:\<close> branch only (line 118); \<open>None\<close> stands for a local that has
  not been assigned, and reading it raises \<^verbatim>\<open>UnboundLocalError\<close>. The index of the query
  and the entries of the shape are Python ints: \<^verbatim>\<open>idx_nearest % ny\<close> (line 134) raises
  \<^verbatim>\<open>ZeroDivisionError\<close> when \<^verbatim>\<open>ny\<close> is 0.
\<close>

definition select_point :: "lookup_info \<Rightarrow> dataset \<Rightarrow> real \<Rightarrow> real \<Rightarrow> bool \<Rightarrow> error + ds_point" where
  "select_point lookup_info ds lon lat wrap_lon_flag =
     (let lookup_tree = tree lookup_info in
      case (if wrap_lon_flag then
              (case wrap_lon lon (lon_bounds lookup_info) of
                 Inl e \<Rightarrow> Inl e
               | Inr (w, off) \<Rightarrow> Inr (Some w, Some off))
            else if lon < fst (lon_bounds lookup_info) \<or> lon > snd (lon_bounds lookup_info)
                 then Inl ValueError_lon_bounds
                 else Inr (None, None)) of
        Inl e \<Rightarrow> Inl e
      | Inr (lon_wrapped, applied_lon_offset) \<Rightarrow>
          if lat < fst (lat_bounds lookup_info) \<or> lat > snd (lat_bounds lookup_info)
          then Inl ValueError_lat_bounds
          else (case lon_wrapped of
                  None \<Rightarrow> Inl (UnboundLocalError ''lon_wrapped'')
                | Some lw \<Rightarrow>
                    let idx_nearest = kd_query lookup_tree (lw, lat);
                        (nx, ny) = shape (ds_lon ds)
                    in if ny = 0 then Inl ZeroDivisionError
                       else
                         let i = idx_nearest mod ny;
                             j = idx_nearest div ny
                         in case isel ds i j of
                              Inl e \<Rightarrow> Inl e
                            | Inr p \<Rightarrow>
                                if wrap_lon_flag then
                                  (case applied_lon_offset of
                                     None \<Rightarrow> Inl (UnboundLocalError ''applied_lon_offset'')
                                   | Some off \<Rightarrow> Inr (p\<lparr>pt_lon := pt_lon p - off\<rparr>))
                                else Inr p))"

text \<open>Lines 108 to 112: the in-memory cache in front of the pickled \<^verbatim>\<open>build_tree\<close>.\<close>

definition get_lookup_info :: "dataset \<Rightarrow> string \<Rightarrow> state \<Rightarrow> (error + lookup_info) \<times> state" where
  "get_lookup_info ds identifier st =
     (case LOOKUP_INFO st identifier of
        Some lookup_info \<Rightarrow> (Inr lookup_info, st)
      | None \<Rightarrow>
          (case cache_to_pickle identifier (build_tree ds identifier) st of
             (Inl e, st1) \<Rightarrow> (Inl e, st1)
           | (Inr lookup_info, st1) \<Rightarrow>
               (Inr lookup_info, st1\<lparr>LOOKUP_INFO := (LOOKUP_INFO st1)(identifier \<mapsto> lookup_info)\<rparr>)))"

text \<open>
  \<^verbatim>\<open>sel_nearest_to_latlon_pt(ds, pt, wrap_lon)\<close> (lines 67 to 142). The checks come in
  the source's order: the identifier (lines 88 to 90), the type of \<^verbatim>\<open>pt\<close> (lines 92
  and 93), the two subscripts \<^verbatim>\<open>pt["lon"]\<close> and \<^verbatim>\<open>pt["lat"]\<close> (line 95), then the caches.
\<close>

definition sel_nearest_to_latlon_pt ::
  "dataset \<Rightarrow> pt_arg \<Rightarrow> bool \<Rightarrow> state \<Rightarrow> (error + ds_point) \<times> state" where
  "sel_nearest_to_latlon_pt ds pt wrap_lon_flag st =
     (case suite_name ds of
        None \<Rightarrow> (Inl ValueError_no_suite_name, st)
      | Some identifier \<Rightarrow>
          (case pt of
             NotADict \<Rightarrow> (Inl TypeError_pt_not_dict, st)
           | Dict d \<Rightarrow>
               (case d ''lon'' of
                  None \<Rightarrow> (Inl (KeyError ''lon''), st)
                | Some lon \<Rightarrow>
                    (case d ''lat'' of
                       None \<Rightarrow> (Inl (KeyError ''lat''), st)
                     | Some lat \<Rightarrow>
                         (case get_lookup_info ds identifier st of
                            (Inl e, st1) \<Rightarrow> (Inl e, st1)
                          | (Inr lookup_info, st1) \<Rightarrow>
                              (select_point lookup_info ds lon lat wrap_lon_flag, st1))))))"

subsection \<open>Sequences of calls, classes of errors, well-formed arrays\<close>

text \<open>
  A process is a sequence of calls on the state; a caller that catches an exception
  goes on with the state the failed call left.
\<close>

type_synonym call = "dataset \<times> pt_arg \<times> bool"

fun run_calls :: "call list \<Rightarrow> state \<Rightarrow> state" where
  "run_calls [] st = st"
| "run_calls ((ds, pt, wrap_lon_flag) # cs) st =
     run_calls cs (snd (sel_nearest_to_latlon_pt ds pt wrap_lon_flag st))"

text \<open>
  The three raises that report a longitude or latitude outside the bounds (lines 55
  and 61, 122, 128), and the two exceptions that reject the argument \<^verbatim>\<open>pt\<close> (lines 93
  and 95).
\<close>

fun out_of_bounds :: "error \<Rightarrow> bool" where
  "out_of_bounds ValueError_wrap = True"
| "out_of_bounds ValueError_lon_bounds = True"
| "out_of_bounds ValueError_lat_bounds = True"
| "out_of_bounds _ = False"

fun pt_rejected :: "error \<Rightarrow> bool" where
  "pt_rejected TypeError_pt_not_dict = True"
| "pt_rejected (KeyError _) = True"
| "pt_rejected _ = False"

text \<open>
  Every entry of the in-memory cache is also in the durable one; and an array of
  \<open>m\<close> rows of length \<open>n\<close>.
\<close>

definition cache_inv :: "state \<Rightarrow> bool" where
  "cache_inv st = (LOOKUP_INFO st \<subseteq>\<^sub>m pickle_files st)"

definition rect :: "nat \<Rightarrow> nat \<Rightarrow> array2d \<Rightarrow> bool" where
  "rect m n a = (length a = m \<and> list_all (\<lambda>row. length row = n) a)"

subsection \<open>Example grids\<close>

text \<open>
  A grid of two rows (y) and five columns (x) with axes \<^verbatim>\<open>(y, x)\<close> and longitudes from
  \<open>-10\<close> to \<open>10\<close>; the same grid without a \<^verbatim>\<open>suite_name\<close>; a grid with the same
  identifier and other coordinates; and a grid of three by two cells with axes
  \<^verbatim>\<open>(x, y)\<close>. With them, the state at the start of a process that has no pickle files,
  and the indices and states the first call on a grid leaves.
\<close>

definition process_start :: state where
  "process_start = \<lparr>LOOKUP_INFO = Map.empty, pickle_files = Map.empty, io_events = []\<rparr>"

definition grid_yx :: dataset where
  "grid_yx = \<lparr>suite_name = Some ''dini'', ds_dims = (''y'', ''x''),
      ds_lon = [[-10, -5, 0, 5, 10], [-10, -5, 0, 5, 10]],
      ds_lat = [[50, 50, 50, 50, 50], [55, 55, 55, 55, 55]]\<rparr>"

definition grid_anonymous :: dataset where
  "grid_anonymous = grid_yx\<lparr>suite_name := None\<rparr>"

definition grid_moved :: dataset where
  "grid_moved = \<lparr>suite_name = Some ''dini'', ds_dims = (''y'', ''x''),
      ds_lon = [[100, 105, 110, 115, 120], [100, 105, 110, 115, 120]],
      ds_lat = [[60, 60, 60, 60, 60], [65, 65, 65, 65, 65]]\<rparr>"

definition grid_xy :: dataset where
  "grid_xy = \<lparr>suite_name = Some ''xy'', ds_dims = (''x'', ''y''),
      ds_lon = [[0, 0], [10, 10], [20, 20]],
      ds_lat = [[50, 55], [50, 55], [50, 55]]\<rparr>"

definition index_yx :: lookup_info where
  "index_yx = \<lparr>tree = [(- 10, 50), (- 5, 50), (0, 50), (5, 50), (10, 50),
                          (- 10, 55), (- 5, 55), (0, 55), (5, 55), (10, 55)],
                  lat_bounds = (50, 55), lon_bounds = (- 10, 10)\<rparr>"

definition cached_yx :: state where
  "cached_yx = \<lparr>LOOKUP_INFO = [''dini'' \<mapsto> index_yx], pickle_files = [''dini'' \<mapsto> index_yx],
                 io_events = [PickleExists ''dini'', LogBuilding ''dini'', PickleDump ''dini'']\<rparr>"

definition index_xy :: lookup_info where
  "index_xy = \<lparr>tree = [(0, 50), (0, 55), (10, 50), (10, 55), (20, 50), (20, 55)],
                  lat_bounds = (50, 55), lon_bounds = (0, 20)\<rparr>"

definition cached_xy :: state where
  "cached_xy = \<lparr>LOOKUP_INFO = [''xy'' \<mapsto> index_xy], pickle_files = [''xy'' \<mapsto> index_xy],
                 io_events = [PickleExists ''xy'', LogBuilding ''xy'', PickleDump ''xy'']\<rparr>"

section \<open>Properties of the wrapping loop in exact arithmetic\<close>

lemma wrap_loop_below:
  "lon < lo \<Longrightarrow> wrap_loop lo hi lon rot =
     (if rot < 0 then Inl ValueError_wrap else wrap_loop lo hi (lon + 360) (rot + 360))"
  by (subst wrap_loop.simps) simp

lemma wrap_loop_above:
  "\<not> lon < lo \<Longrightarrow> hi < lon \<Longrightarrow> wrap_loop lo hi lon rot =
     (if 0 < rot then Inl ValueError_wrap else wrap_loop lo hi (lon - 360) (rot - 360))"
  by (subst wrap_loop.simps) (simp add: Let_def)

lemma wrap_loop_within:
  "lo \<le> lon \<Longrightarrow> lon \<le> hi \<Longrightarrow> wrap_loop lo hi lon rot = Inr (lon, rot)"
  by (subst wrap_loop.simps) simp

lemma wrap_loop_in_bounds:
  "wrap_loop lo hi lon rot = Inr (w, off) \<Longrightarrow> lo \<le> w \<and> w \<le> hi"
proof (induction lo hi lon rot rule: wrap_loop.induct)
  case (1 lo hi lon rot)
  show ?case
  proof (cases "lon < lo")
    case True
    with 1 show ?thesis by (simp add: wrap_loop_below split: if_splits)
  next
    case False
    show ?thesis
    proof (cases "hi < lon")
      case True
      with False 1 show ?thesis by (simp add: wrap_loop_above split: if_splits)
    next
      case False
      with \<open>\<not> lon < lo\<close> 1(4) show ?thesis by (simp add: wrap_loop_within)
    qed
  qed
qed

lemma wrap_loop_congruent:
  "wrap_loop lo hi lon rot = Inr (w, off) \<Longrightarrow>
     \<exists>k::int. w = lon + 360 * of_int k \<and> off = rot + 360 * of_int k"
proof (induction lo hi lon rot rule: wrap_loop.induct)
  case (1 lo hi lon rot)
  show ?case
  proof (cases "lon < lo")
    case True
    with 1(4) have nr: "\<not> rot < 0" and rec: "wrap_loop lo hi (lon + 360) (rot + 360) = Inr (w, off)"
      by (simp_all add: wrap_loop_below split: if_splits)
    from 1(1)[OF _ True nr rec] True obtain k :: int
      where "w = lon + 360 + 360 * of_int k" "off = rot + 360 + 360 * of_int k" by auto
    then have "w = lon + 360 * of_int (k + 1) \<and> off = rot + 360 * of_int (k + 1)" by simp
    then show ?thesis by blast
  next
    case False
    show ?thesis
    proof (cases "hi < lon")
      case True
      with False 1(4) have nr: "\<not> 0 < rot" and rec: "wrap_loop lo hi (lon - 360) (rot - 360) = Inr (w, off)"
        by (simp_all add: wrap_loop_above split: if_splits)
      from 1(2)[OF _ False True refl nr rec] True obtain k :: int
        where "w = lon - 360 + 360 * of_int k" "off = rot - 360 + 360 * of_int k" by auto
      then have "w = lon + 360 * of_int (k - 1) \<and> off = rot + 360 * of_int (k - 1)" by simp
      then show ?thesis by blast
    next
      case False
      with \<open>\<not> lon < lo\<close> 1(4) have "w = lon + 360 * of_int (0::int) \<and> off = rot + 360 * of_int (0::int)"
        by (simp add: wrap_loop_within)
      then show ?thesis by blast
    qed
  qed
qed

lemma wrap_loop_error:
  "wrap_loop lo hi lon rot = Inl e \<Longrightarrow> e = ValueError_wrap"
proof (induction lo hi lon rot rule: wrap_loop.induct)
  case (1 lo hi lon rot)
  show ?case
  proof (cases "lon < lo")
    case True
    with 1(1,4) show ?thesis by (simp add: wrap_loop_below split: if_splits)
  next
    case False
    show ?thesis
    proof (cases "hi < lon")
      case True
      with False 1(2,4) show ?thesis by (simp add: wrap_loop_above split: if_splits)
    next
      case False
      with \<open>\<not> lon < lo\<close> 1(4) show ?thesis by (simp add: wrap_loop_within)
    qed
  qed
qed

lemma wrap_loop_up:
  "360 \<le> hi - lo \<Longrightarrow> lon < lo \<Longrightarrow> 0 \<le> rot \<Longrightarrow>
     \<exists>w off. wrap_loop lo hi lon rot = Inr (w, off) \<and> lo \<le> w \<and> w < lo + 360 \<and> rot < off"
proof (induction lo hi lon rot rule: wrap_loop.induct)
  case (1 lo hi lon rot)
  have step: "wrap_loop lo hi lon rot = wrap_loop lo hi (lon + 360) (rot + 360)"
    using 1(5,6) by (simp add: wrap_loop_below)
  show ?case
  proof (cases "lon + 360 < lo")
    case True
    have "\<exists>w off. wrap_loop lo hi (lon + 360) (rot + 360) = Inr (w, off)
            \<and> lo \<le> w \<and> w < lo + 360 \<and> rot + 360 < off"
      using 1(1)[OF _ 1(5) _ 1(4) True] 1(5,6) by simp
    with step show ?thesis by force
  next
    case False
    with 1(4) have "wrap_loop lo hi (lon + 360) (rot + 360) = Inr (lon + 360, rot + 360)"
      using 1(5) by (simp add: wrap_loop_within)
    with step False 1(5) show ?thesis by simp
  qed
qed

lemma wrap_loop_down:
  "360 \<le> hi - lo \<Longrightarrow> hi < lon \<Longrightarrow> rot \<le> 0 \<Longrightarrow>
     \<exists>w off. wrap_loop lo hi lon rot = Inr (w, off) \<and> hi - 360 < w \<and> w \<le> hi \<and> off < rot"
proof (induction lo hi lon rot rule: wrap_loop.induct)
  case (1 lo hi lon rot)
  have nlo: "\<not> lon < lo" using 1(4,5) by simp
  have step: "wrap_loop lo hi lon rot = wrap_loop lo hi (lon - 360) (rot - 360)"
    using nlo 1(5,6) by (simp add: wrap_loop_above)
  show ?case
  proof (cases "hi < lon - 360")
    case True
    have "\<exists>w off. wrap_loop lo hi (lon - 360) (rot - 360) = Inr (w, off)
            \<and> hi - 360 < w \<and> w \<le> hi \<and> off < rot - 360"
      using 1(2)[OF _ nlo 1(5) refl _ 1(4) True] 1(5,6) by simp
    with step show ?thesis by force
  next
    case False
    with 1(4) have "wrap_loop lo hi (lon - 360) (rot - 360) = Inr (lon - 360, rot - 360)"
      using 1(5) by (simp add: wrap_loop_within)
    with step False 1(5) show ?thesis by simp
  qed
qed

section \<open>Rounding to a double and the loop on doubles\<close>

text \<open>
  The binade functions bracket their argument; a number on the grid whose multiple fits
  53 bits is a double, so rounding leaves it alone; rounding keeps the sign.
\<close>

lemma binade_up_bounds:
  "1 \<le> x \<Longrightarrow> 2 ^ binade_up x \<le> x \<and> x < 2 ^ Suc (binade_up x)"
proof (induction x rule: binade_up.induct)
  case (1 x)
  show ?case
  proof (cases "x < 2")
    case True
    with 1(2) show ?thesis by (simp add: binade_up.simps)
  next
    case False
    then have "1 \<le> x / 2" by simp
    with 1(1)[OF False] have "2 ^ binade_up (x / 2) \<le> x / 2 \<and> x / 2 < 2 ^ Suc (binade_up (x / 2))"
      by blast
    moreover from False have "binade_up x = Suc (binade_up (x / 2))"
      by (subst binade_up.simps) simp
    ultimately show ?thesis by simp
  qed
qed

lemma binade_down_bounds:
  "0 < x \<Longrightarrow> x < 1 \<Longrightarrow> 1 \<le> x * 2 ^ binade_down x \<and> x * 2 ^ binade_down x < 2"
proof (induction x rule: binade_down.induct)
  case (1 x)
  from 1(2,3) have step: "binade_down x = Suc (binade_down (2 * x))"
    by (subst binade_down.simps) simp
  show ?case
  proof (cases "1 \<le> 2 * x")
    case True
    then have "binade_down (2 * x) = 0" by (subst binade_down.simps) simp
    with step True 1(3) show ?thesis by simp
  next
    case False
    with 1(1) 1(2,3) have "1 \<le> 2 * x * 2 ^ binade_down (2 * x) \<and> 2 * x * 2 ^ binade_down (2 * x) < 2"
      by simp
    with step show ?thesis by (simp add: mult.assoc mult.left_commute)
  qed
qed

lemma round_even_of_int: "round_even (of_int j) = j"
  by (simp add: round_even_def)

lemma round_even_nonpos: "x \<le> 0 \<Longrightarrow> round_even x \<le> 0"
proof -
  assume x: "x \<le> 0"
  show ?thesis
  proof (cases "x - of_int \<lfloor>x\<rfloor> < 1 / 2")
    case True
    with x show ?thesis by (simp add: round_even_def Let_def)
  next
    case False
    then have "x \<noteq> 0" by auto
    with x have "x < 0" by simp
    then have "\<lfloor>x\<rfloor> \<le> - 1" by linarith
    then show ?thesis by (simp add: round_even_def Let_def)
  qed
qed

lemma f64_quantum_pos: "0 < f64_quantum x"
  by (simp add: f64_quantum_def)

lemma f64_round_nonpos: "x \<le> 0 \<Longrightarrow> f64_round x \<le> 0"
proof -
  assume "x \<le> 0"
  then have "x / f64_quantum x \<le> 0"
    using f64_quantum_pos[of x] by (simp add: divide_nonpos_pos)
  then have "round_even (x / f64_quantum x) \<le> 0" by (rule round_even_nonpos)
  then have "real_of_int (round_even (x / f64_quantum x)) \<le> 0" by simp
  then show ?thesis
    unfolding f64_round_def using f64_quantum_pos[of x]
    by (simp add: mult_nonpos_nonneg less_imp_le)
qed

lemma f64_round_on_grid:
  assumes "x / f64_quantum x = of_int j"
  shows "f64_round x = x"
proof -
  have "f64_round x = of_int j * f64_quantum x"
    by (simp add: f64_round_def assms round_even_of_int)
  also have "\<dots> = x" using assms f64_quantum_pos[of x] by (simp add: field_simps)
  finally show ?thesis .
qed

lemma pow2_quotient:
  fixes k :: int
  assumes "b \<le> a"
  shows "of_int k * 2 ^ a / 2 ^ b = (of_int (k * 2 ^ (a - b)) :: real)"
proof -
  have "(2::real) ^ a = 2 ^ (a - b) * 2 ^ b"
    using assms by (simp add: power_add[symmetric])
  then show ?thesis by simp
qed

lemma on_grid_iff: "on_grid m x \<longleftrightarrow> (\<exists>k::int. x = of_int k / 2 ^ m)"
proof
  assume "on_grid m x"
  then have fl: "of_int \<lfloor>x * 2 ^ m\<rfloor> = x * 2 ^ m" unfolding on_grid_def .
  have "x = x * 2 ^ m / 2 ^ m" by simp
  also have "\<dots> = of_int \<lfloor>x * 2 ^ m\<rfloor> / 2 ^ m" by (simp only: fl)
  finally show "\<exists>k::int. x = of_int k / 2 ^ m" by blast
next
  assume "\<exists>k::int. x = of_int k / 2 ^ m"
  then obtain k :: int where "x = of_int k / 2 ^ m" by blast
  then have "x * 2 ^ m = of_int k" by simp
  then have "of_int \<lfloor>x * 2 ^ m\<rfloor> = x * 2 ^ m" by simp
  then show "on_grid m x" unfolding on_grid_def .
qed

lemma f64_exact_iff:
  "f64_exact m x \<longleftrightarrow> (\<exists>k::int. \<bar>k\<bar> < 2 ^ 53 \<and> x = of_int k / 2 ^ m)"
proof
  assume "f64_exact m x"
  then have g: "on_grid m x" and b: "\<bar>x * 2 ^ m\<bar> < 2 ^ 53" unfolding f64_exact_def by blast+
  from g obtain k :: int where x: "x = of_int k / 2 ^ m" by (auto simp: on_grid_iff)
  then have "x * 2 ^ m = of_int k" by simp
  with b have "real_of_int \<bar>k\<bar> < 2 ^ 53" by simp
  then have "\<bar>k\<bar> < 2 ^ 53" by (metis of_int_less_iff of_int_numeral of_int_power)
  with x show "\<exists>k::int. \<bar>k\<bar> < 2 ^ 53 \<and> x = of_int k / 2 ^ m" by blast
next
  assume "\<exists>k::int. \<bar>k\<bar> < 2 ^ 53 \<and> x = of_int k / 2 ^ m"
  then obtain k :: int where k: "\<bar>k\<bar> < 2 ^ 53" and x: "x = of_int k / 2 ^ m" by blast
  from x have e: "x * 2 ^ m = of_int k" by simp
  from k have "real_of_int \<bar>k\<bar> < 2 ^ 53" by (metis of_int_less_iff of_int_numeral of_int_power)
  with e have "\<bar>x * 2 ^ m\<bar> < 2 ^ 53" by simp
  moreover from x have "on_grid m x" by (auto simp: on_grid_iff)
  ultimately show "f64_exact m x" unfolding f64_exact_def by blast
qed

lemma f64_round_exact:
  assumes "f64_exact m x" and "m \<le> 1074"
  shows "f64_round x = x"
proof -
  from assms(1) obtain k :: int where k: "\<bar>k\<bar> < 2 ^ 53" and x: "x = of_int k / 2 ^ m"
    by (auto simp: f64_exact_iff)
  have absx: "\<bar>x\<bar> * 2 ^ m = of_int \<bar>k\<bar>" by (simp add: x abs_divide)
  have kreal: "real_of_int \<bar>k\<bar> < 2 ^ 53" using k by (metis of_int_less_iff of_int_numeral of_int_power)
  consider (zero) "x = 0" | (big) "1 \<le> \<bar>x\<bar>" | (small) "x \<noteq> 0" "\<bar>x\<bar> < 1" by linarith
  then show ?thesis
  proof cases
    case zero
    then have "x / f64_quantum x = of_int 0" by simp
    then show ?thesis by (rule f64_round_on_grid)
  next
    case big
    define n where "n = binade_up \<bar>x\<bar>"
    from binade_up_bounds[OF big] have lo: "2 ^ n \<le> \<bar>x\<bar>" by (simp add: n_def)
    have mn: "m + n \<le> 52"
    proof (rule ccontr)
      assume "\<not> m + n \<le> 52"
      then have "53 \<le> m + n" by simp
      then have "(2::real) ^ 53 \<le> 2 ^ (m + n)" by (intro power_increasing) simp_all
      also have "\<dots> = 2 ^ n * 2 ^ m" by (simp add: power_add)
      also have "\<dots> \<le> \<bar>x\<bar> * 2 ^ m" using lo by (simp add: mult_right_mono)
      finally show False using absx kreal by simp
    qed
    have q: "f64_quantum x = 2 ^ n / 2 ^ 52" using big by (simp add: f64_quantum_def n_def)
    have "x / f64_quantum x = x * 2 ^ 52 / 2 ^ n"
      by (simp only: q) simp
    also have "\<dots> = of_int k * 2 ^ 52 / 2 ^ (m + n)"
      by (simp add: x power_add)
    also have "\<dots> = of_int (k * 2 ^ (52 - (m + n)))"
      using mn by (rule pow2_quotient)
    finally show ?thesis by (rule f64_round_on_grid)
  next
    case small
    define d where "d = min (binade_down \<bar>x\<bar>) 1022"
    have q: "f64_quantum x = 1 / 2 ^ (d + 52)" using small by (simp add: f64_quantum_def d_def)
    from small have pos: "0 < \<bar>x\<bar>" by simp
    from binade_down_bounds[OF pos small(2)] have one: "1 \<le> \<bar>x\<bar> * 2 ^ binade_down \<bar>x\<bar>" by simp
    have md: "m \<le> d + 52"
    proof (cases "binade_down \<bar>x\<bar> \<le> 1022")
      case True
      then have dd: "d = binade_down \<bar>x\<bar>" by (simp add: d_def)
      show ?thesis
      proof (rule ccontr)
        assume "\<not> m \<le> d + 52"
        then have "d + 53 \<le> m" by simp
        then obtain r where m: "m = d + r" and r: "53 \<le> r"
          by (metis add_le_cancel_left le_Suc_ex add_leD1)
        have "(2::real) ^ 53 \<le> 2 ^ r" using r by (intro power_increasing) simp_all
        also have "\<dots> \<le> (\<bar>x\<bar> * 2 ^ d) * 2 ^ r"
          using one dd by (simp add: mult_le_cancel_right1)
        also have "\<dots> = \<bar>x\<bar> * 2 ^ m" by (simp add: m power_add mult.assoc)
        finally show False using absx kreal by simp
      qed
    next
      case False
      then have "d = 1022" by (simp add: d_def)
      with assms(2) show ?thesis by simp
    qed
    have "x / f64_quantum x = x * 2 ^ (d + 52)"
      by (simp only: q) simp
    also have "\<dots> = of_int k * 2 ^ (d + 52) / 2 ^ m"
      by (simp add: x)
    also have "\<dots> = of_int (k * 2 ^ (d + 52 - m))"
      using md by (rule pow2_quotient)
    finally show ?thesis by (rule f64_round_on_grid)
  qed
qed

lemma on_grid_exact:
  assumes "on_grid m x" and "\<bar>x * 2 ^ m\<bar> < 2 ^ 53"
  shows "f64_exact m x"
  using assms unfolding f64_exact_def by blast

lemma on_grid_add_int:
  assumes "on_grid m x"
  shows "on_grid m (x + of_int j)"
proof -
  from assms obtain k :: int where x: "x = of_int k / 2 ^ m" by (auto simp: on_grid_iff)
  have "x + of_int j = of_int (k + j * 2 ^ m) / 2 ^ m"
    by (simp add: x add_divide_distrib)
  then show ?thesis unfolding on_grid_iff by blast
qed

lemma on_grid_diff:
  assumes "on_grid m x" and "on_grid m y"
  shows "on_grid m (x - y)"
proof -
  from assms obtain k l :: int where "x = of_int k / 2 ^ m" "y = of_int l / 2 ^ m"
    by (auto simp: on_grid_iff)
  then have "x - y = of_int (k - l) / 2 ^ m" by (simp add: diff_divide_distrib)
  then show ?thesis unfolding on_grid_iff by blast
qed

lemma pow2_le_42:
  assumes "m \<le> 42"
  shows "(1::real) \<le> 2 ^ m \<and> 360 * (2::real) ^ m \<le> 2 ^ 51"
proof -
  have "(2::real) ^ m \<le> 2 ^ 42" using assms by (intro power_increasing) simp_all
  then show ?thesis by simp
qed

lemma abs_scaled: "\<bar>x\<bar> * 2 ^ m = \<bar>x * (2::real) ^ m\<bar>"
  by (simp add: abs_mult)

lemma f64_round_fixes_exact:
  assumes "m \<le> 42" and "on_grid m x" and "\<bar>x\<bar> * 2 ^ m \<le> 2 ^ 51"
  shows "f64_round x = x"
proof -
  from assms(3) have "\<bar>x * 2 ^ m\<bar> \<le> 2 ^ 51" by (simp only: abs_scaled)
  then have "\<bar>x * 2 ^ m\<bar> < 2 ^ 53" by simp
  with assms(2) have "f64_exact m x" by (rule on_grid_exact)
  moreover from assms(1) have "m \<le> 1074" by simp
  ultimately show ?thesis by (rule f64_round_exact)
qed

text \<open>
  One iteration of the loop on doubles, by the branch taken.
\<close>

lemma wrap_loop_f64_below:
  "lon < lo \<Longrightarrow> wrap_loop_f64 lo hi lon rot =
     (if rot < 0 then Some (Inl ValueError_wrap)
      else wrap_loop_f64 lo hi (f64_round (lon + 360)) (f64_round (rot + 360)))"
  by (subst wrap_loop_f64.simps) simp

lemma wrap_loop_f64_above:
  "\<not> lon < lo \<Longrightarrow> hi < lon \<Longrightarrow> wrap_loop_f64 lo hi lon rot =
     (if 0 < rot then Some (Inl ValueError_wrap)
      else wrap_loop_f64 lo hi (f64_round (lon - 360)) (f64_round (rot - 360)))"
  by (subst wrap_loop_f64.simps) (simp add: Let_def)

lemma wrap_loop_f64_within:
  "lo \<le> lon \<Longrightarrow> lon \<le> hi \<Longrightarrow> wrap_loop_f64 lo hi lon rot = Some (Inr (lon, rot))"
  by (subst wrap_loop_f64.simps) simp

text \<open>
  Where the arithmetic is exact, the loop on doubles does what the loop in exact
  arithmetic does, and so it returns. The condition: the longitude the loop started from
  and the current one are multiples of \<open>2 ^ - m\<close> with \<open>m \<le> 42\<close>, and the start and
  both bounds are at most \<open>2 ^ 51 / 2 ^ m\<close> in magnitude; then every value the loop
  computes is a multiple of \<open>2 ^ - m\<close> that fits 53 bits.
\<close>

lemma wrap_loop_f64_exact_arithmetic:
  assumes "m \<le> 42"
    and "\<bar>lo * 2 ^ m\<bar> \<le> 2 ^ 51" and "\<bar>hi * 2 ^ m\<bar> \<le> 2 ^ 51"
    and "on_grid m lon0" and "\<bar>lon0 * 2 ^ m\<bar> \<le> 2 ^ 51"
    and "on_grid m lon" and "\<bar>lon * 2 ^ m\<bar> \<le> 2 ^ 51 + 360 * 2 ^ m"
    and "rot = lon - lon0"
  shows "wrap_loop_f64 lo hi lon rot = Some (wrap_loop lo hi lon rot)"
  using assms
proof (induction lo hi lon rot rule: wrap_loop.induct)
  case (1 lo hi lon rot)
  define s :: real where "s = 2 ^ m"
  define B :: real where "B = 2 ^ 51"
  have B: "0 < B" "2 ^ 53 = 4 * B" by (simp_all add: B_def)
  from pow2_le_42[OF \<open>m \<le> 42\<close>] have s: "1 \<le> s" "360 * s \<le> B" by (simp_all add: s_def B_def)
  have m': "m \<le> 1074" using \<open>m \<le> 42\<close> by simp
  from 1(5) have bl: "lo * s \<le> B" "- B \<le> lo * s" unfolding s_def B_def abs_le_iff by linarith+
  from 1(6) have bh: "hi * s \<le> B" "- B \<le> hi * s" unfolding s_def B_def abs_le_iff by linarith+
  from 1(8) have b0: "lon0 * s \<le> B" "- B \<le> lon0 * s" unfolding s_def B_def abs_le_iff by linarith+
  from 1(10) have bn: "lon * s \<le> B + 360 * s" "- (B + 360 * s) \<le> lon * s"
    unfolding s_def B_def abs_le_iff by linarith+
  have g360: "on_grid m (lon + 360)" "on_grid m (lon - 360)"
    using on_grid_add_int[OF \<open>on_grid m lon\<close>, of 360] on_grid_add_int[OF \<open>on_grid m lon\<close>, of "- 360"]
    by simp_all
  show ?case
  proof (cases "lon < lo")
    case True
    then have lt: "lon * s < lo * s" using s(1) by simp
    have e1: "(lon + 360) * s = lon * s + 360 * s" by (simp add: distrib_right)
    from lt bl bn s have up: "\<bar>(lon + 360) * s\<bar> \<le> B + 360 * s"
      unfolding e1 abs_le_iff by linarith
    have rot': "rot + 360 = (lon + 360) - lon0" using \<open>rot = lon - lon0\<close> by simp
    have e2: "(lon + 360 - lon0) * s = lon * s + 360 * s - lon0 * s" by (simp add: algebra_simps)
    from lt bl bn b0 s B have "\<bar>(rot + 360) * s\<bar> < 2 ^ 53"
      unfolding rot' e2 abs_le_iff abs_less_iff by linarith
    moreover have "on_grid m (rot + 360)"
      unfolding rot' using g360(1) \<open>on_grid m lon0\<close> by (rule on_grid_diff)
    ultimately have r: "f64_round (rot + 360) = rot + 360"
      by (intro f64_round_exact[OF _ m'] on_grid_exact) (simp_all add: s_def)
    from up s B have "\<bar>(lon + 360) * s\<bar> < 2 ^ 53" by linarith
    with g360(1) have l: "f64_round (lon + 360) = lon + 360"
      by (intro f64_round_exact[OF _ m'] on_grid_exact) (simp_all add: s_def)
    show ?thesis
    proof (cases "rot < 0")
      case True
      with \<open>lon < lo\<close> show ?thesis by (simp add: wrap_loop_f64_below wrap_loop_below)
    next
      case False
      have "wrap_loop_f64 lo hi (lon + 360) (rot + 360) = Some (wrap_loop lo hi (lon + 360) (rot + 360))"
        using up rot'
        by (intro 1(1)[OF _ \<open>lon < lo\<close> False \<open>m \<le> 42\<close> 1(5) 1(6) 1(7) 1(8) g360(1)])
           (use \<open>lon < lo\<close> in \<open>simp_all add: s_def B_def\<close>)
      with False \<open>lon < lo\<close> l r show ?thesis by (simp add: wrap_loop_f64_below wrap_loop_below)
    qed
  next
    case False
    note nlo = False
    show ?thesis
    proof (cases "hi < lon")
      case True
      then have lt: "hi * s < lon * s" using s(1) by simp
      have e1: "(lon - 360) * s = lon * s - 360 * s" by (simp add: left_diff_distrib)
      from lt bh bn s have dn: "\<bar>(lon - 360) * s\<bar> \<le> B + 360 * s"
        unfolding e1 abs_le_iff by linarith
      have rot': "rot - 360 = (lon - 360) - lon0" using \<open>rot = lon - lon0\<close> by simp
      have e2: "(lon - 360 - lon0) * s = lon * s - 360 * s - lon0 * s" by (simp add: algebra_simps)
      from lt bh bn b0 s B have "\<bar>(rot - 360) * s\<bar> < 2 ^ 53"
        unfolding rot' e2 abs_le_iff abs_less_iff by linarith
      moreover have "on_grid m (rot - 360)"
        unfolding rot' using g360(2) \<open>on_grid m lon0\<close> by (rule on_grid_diff)
      ultimately have r: "f64_round (rot - 360) = rot - 360"
        by (intro f64_round_exact[OF _ m'] on_grid_exact) (simp_all add: s_def)
      from dn s B have "\<bar>(lon - 360) * s\<bar> < 2 ^ 53" by linarith
      with g360(2) have l: "f64_round (lon - 360) = lon - 360"
        by (intro f64_round_exact[OF _ m'] on_grid_exact) (simp_all add: s_def)
      show ?thesis
      proof (cases "0 < rot")
        case True
        with nlo \<open>hi < lon\<close> show ?thesis by (simp add: wrap_loop_f64_above wrap_loop_above)
      next
        case False
        have "wrap_loop_f64 lo hi (lon - 360) (rot - 360) = Some (wrap_loop lo hi (lon - 360) (rot - 360))"
          using dn rot'
          by (intro 1(2)[OF _ nlo \<open>hi < lon\<close> refl False \<open>m \<le> 42\<close> 1(5) 1(6) 1(7) 1(8) g360(2)])
             (use \<open>hi < lon\<close> in \<open>simp_all add: s_def B_def\<close>)
        with False nlo \<open>hi < lon\<close> l r show ?thesis by (simp add: wrap_loop_f64_above wrap_loop_above)
      qed
    next
      case False
      with nlo show ?thesis by (simp add: wrap_loop_f64_within wrap_loop_within)
    qed
  qed
qed

lemma wrap_lon_f64_exact_arithmetic:
  assumes "m \<le> 42" and "on_grid m lon" and "\<bar>lon\<bar> * 2 ^ m \<le> 2 ^ 51"
    and "\<bar>a\<bar> * 2 ^ m \<le> 2 ^ 51" and "\<bar>b\<bar> * 2 ^ m \<le> 2 ^ 51"
  shows "wrap_lon_f64 lon (a, b) = Some (wrap_lon lon (a, b))"
proof -
  from assms(3,4,5) have bnd: "\<bar>lon * 2 ^ m\<bar> \<le> 2 ^ 51" "\<bar>a * 2 ^ m\<bar> \<le> 2 ^ 51" "\<bar>b * 2 ^ m\<bar> \<le> 2 ^ 51"
    by (simp_all only: abs_scaled)
  have "(0::real) \<le> 360 * 2 ^ m" by simp
  with bnd(1) have "\<bar>lon * 2 ^ m\<bar> \<le> 2 ^ 51 + 360 * 2 ^ m" by linarith
  then have "wrap_loop_f64 a b lon 0 = Some (wrap_loop a b lon 0)"
    by (intro wrap_loop_f64_exact_arithmetic[OF assms(1) bnd(2) bnd(3) assms(2) bnd(1) assms(2)]) simp_all
  then show ?thesis by (simp add: wrap_lon_f64_def wrap_lon_def)
qed

lemma wrap_lon_f64_exact:
  assumes "wrap_exact m lon a b"
  shows "wrap_lon_f64 lon (a, b) = Some (wrap_lon lon (a, b))"
proof -
  from assms have "m \<le> 42" "on_grid m lon" "\<bar>lon\<bar> * 2 ^ m \<le> 2 ^ 51"
    "\<bar>a\<bar> * 2 ^ m \<le> 2 ^ 51" "\<bar>b\<bar> * 2 ^ m \<le> 2 ^ 51"
    by (simp_all add: wrap_exact_def)
  then show ?thesis by (rule wrap_lon_f64_exact_arithmetic)
qed

lemma wrap_exact_double:
  assumes "wrap_exact m lon a b"
  shows "f64_round lon = lon"
proof -
  from assms have "m \<le> 42" "on_grid m lon" "\<bar>lon\<bar> * 2 ^ m \<le> 2 ^ 51"
    by (simp_all add: wrap_exact_def)
  then show ?thesis by (rule f64_round_fixes_exact)
qed

lemma wrap_exact_int:
  assumes "\<bar>real_of_int j\<bar> \<le> 2 ^ 51" and "\<bar>a\<bar> \<le> 2 ^ 51" and "\<bar>b\<bar> \<le> 2 ^ 51"
  shows "wrap_exact 0 (of_int j) a b"
proof -
  have "on_grid 0 (of_int j)"
    unfolding on_grid_iff by (rule exI[of _ j]) simp
  with assms show ?thesis by (simp add: wrap_exact_def)
qed

text \<open>
  At \<open>10 ^ 19\<close> the doubles are 2048 apart, so subtracting 360 gives the same double
  back: above the upper bound, with a rotation that is not positive, the loop on doubles
  never returns.
\<close>

lemma wrap_loop_f64_absorbed:
  assumes "hi < 10000000000000000000" and "rot \<le> 0" and "\<not> 10000000000000000000 < lo"
  shows "wrap_loop_f64 lo hi 10000000000000000000 rot = None"
proof (rule ccontr)
  assume "wrap_loop_f64 lo hi 10000000000000000000 rot \<noteq> None"
  then obtain y where y: "wrap_loop_f64 lo hi 10000000000000000000 rot = Some y" by blast
  have absorb: "f64_round (10000000000000000000 - 360) = 10000000000000000000"
    by (simp add: f64_round_def f64_quantum_def binade_up.simps round_even_def Let_def)
  define stuck :: "real \<Rightarrow> real \<Rightarrow> real \<Rightarrow> real \<Rightarrow> error + real \<times> real \<Rightarrow> bool"
    where "stuck = (\<lambda>lo hi lon rot y.
             \<not> (lon = 10000000000000000000 \<and> hi < lon \<and> \<not> lon < lo \<and> rot \<le> 0))"
  have "stuck lo hi 10000000000000000000 rot y"
  proof (rule wrap_loop_f64.raw_induct[where P = stuck, OF _ y], goal_cases)
    case (1 f lo hi lon rot y)
    show ?case unfolding stuck_def
    proof
      assume inv: "lon = 10000000000000000000 \<and> hi < lon \<and> \<not> lon < lo \<and> rot \<le> 0"
      with 1(2) have "f lo hi (f64_round (lon - 360)) (f64_round (rot - 360)) = Some y"
        by (simp add: Let_def)
      then have "stuck lo hi (f64_round (lon - 360)) (f64_round (rot - 360)) y"
        by (rule 1(1))
      moreover from inv absorb have "f64_round (lon - 360) = lon" by simp
      moreover from inv have "f64_round (rot - 360) \<le> 0" by (intro f64_round_nonpos) simp
      ultimately show False using inv by (simp add: stuck_def)
    qed
  qed
  with assms show False by (simp add: stuck_def)
qed

text \<open>
  Two facts of the loop in exact arithmetic that the claims are derived from.
\<close>

lemma wrap_lon_exact_wide_bounds:
  assumes "360 \<le> b - a"
  shows "\<exists>wrapped offset. wrap_lon lon (a, b) = Inr (wrapped, offset)
           \<and> a \<le> wrapped \<and> wrapped \<le> b
           \<and> wrapped = lon + offset \<and> (\<exists>k::int. offset = 360 * of_int k)
           \<and> (a \<le> lon \<and> lon \<le> b \<longrightarrow> wrapped = lon \<and> offset = 0)
           \<and> (lon < a \<longrightarrow> 0 < offset \<and> wrapped < a + 360)
           \<and> (b < lon \<longrightarrow> offset < 0 \<and> b - 360 < wrapped)
           \<and> (a - 360 \<le> lon \<and> lon \<le> b + 360 \<longrightarrow> \<bar>offset\<bar> \<le> 360)"
proof -
  consider (below) "lon < a" | (above) "b < lon" | (within) "a \<le> lon" "lon \<le> b"
    by linarith
  then show ?thesis
  proof cases
    case below
    from wrap_loop_up[OF assms below, of 0] obtain w off
      where run: "wrap_loop a b lon 0 = Inr (w, off)" and w: "a \<le> w" "w < a + 360" and off: "0 < off"
      by auto
    from wrap_loop_congruent[OF run] obtain k :: int
      where k: "w = lon + 360 * of_int k" "off = 0 + 360 * of_int k" by blast
    have one: "\<bar>off\<bar> \<le> 360" if near: "a - 360 \<le> lon"
    proof -
      from k w(2) near have "360 * real_of_int k < 720" by linarith
      then have "real_of_int k < 2" by simp
      then have "k < 2" by linarith
      moreover from off k have "0 < real_of_int k" by simp
      then have "0 < k" by linarith
      ultimately have "k = 1" by linarith
      with k show ?thesis by simp
    qed
    from k have sum: "w = lon + off" "\<exists>j::int. off = 360 * of_int j" by auto
    from run w off one below assms sum show ?thesis
      by (simp add: wrap_lon_def)
  next
    case above
    from wrap_loop_down[OF assms above, of 0] obtain w off
      where run: "wrap_loop a b lon 0 = Inr (w, off)" and w: "b - 360 < w" "w \<le> b" and off: "off < 0"
      by auto
    from wrap_loop_congruent[OF run] obtain k :: int
      where k: "w = lon + 360 * of_int k" "off = 0 + 360 * of_int k" by blast
    have one: "\<bar>off\<bar> \<le> 360" if near: "lon \<le> b + 360"
    proof -
      from k w(1) near have "- 720 < 360 * real_of_int k" by linarith
      then have "- 2 < real_of_int k" by simp
      then have "- 2 < k" by linarith
      moreover from off k have "real_of_int k < 0" by simp
      then have "k < 0" by linarith
      ultimately have "k = - 1" by linarith
      with k show ?thesis by simp
    qed
    from k have sum: "w = lon + off" "\<exists>j::int. off = 360 * of_int j" by auto
    from run w off one above assms sum show ?thesis
      by (simp add: wrap_lon_def)
  next
    case within
    then have "wrap_loop a b lon 0 = Inr (lon, 0)"
      by (rule wrap_loop_within)
    moreover have "\<exists>j::int. (0::real) = 360 * of_int j" by (rule exI[of _ 0]) simp
    ultimately show ?thesis using within
      by (simp add: wrap_lon_def)
  qed
qed

lemma wrap_lon_exact_unplaceable:
  assumes "\<forall>k::int. \<not> (a \<le> lon + 360 * of_int k \<and> lon + 360 * of_int k \<le> b)"
  shows "wrap_lon lon (a, b) = Inl ValueError_wrap"
proof -
  have "wrap_loop a b lon 0 = Inl ValueError_wrap"
  proof (cases "wrap_loop a b lon 0")
    case (Inl e)
    then show ?thesis using wrap_loop_error by blast
  next
    case (Inr p)
    obtain w off where p: "p = (w, off)" by (cases p)
    from Inr p wrap_loop_in_bounds have "a \<le> w \<and> w \<le> b" by blast
    moreover from Inr p wrap_loop_congruent obtain k :: int
      where "w = lon + 360 * of_int k" by blast
    ultimately show ?thesis using assms by blast
  qed
  then show ?thesis by (simp add: wrap_lon_def)
qed

section \<open>Properties of the caches\<close>

lemmas sel_defs = sel_nearest_to_latlon_pt_def get_lookup_info_def cache_to_pickle_def build_tree_def
  select_point_def isel_def cell_def index2_def shape_def kd_query_def
  sqdist_def flatten_def amin_def amax_def wrap_lon_def wrap_loop.simps

lemma get_lookup_info_hit:
  "LOOKUP_INFO st identifier = Some info \<Longrightarrow> get_lookup_info ds identifier st = (Inr info, st)"
  by (simp add: get_lookup_info_def)

lemma get_lookup_info_Inr:
  assumes "get_lookup_info ds identifier st = (Inr info, st')"
  shows "LOOKUP_INFO st' identifier = Some info"
  using assms
  by (auto simp: get_lookup_info_def cache_to_pickle_def build_tree_def Let_def
           split: option.splits prod.splits sum.splits if_splits)

lemma get_lookup_info_Inl:
  assumes "get_lookup_info ds identifier st = (Inl e, st')"
  shows "e = ValueError_empty_grid \<and> LOOKUP_INFO st' = LOOKUP_INFO st \<and> pickle_files st' = pickle_files st"
  using assms
  by (auto simp: get_lookup_info_def cache_to_pickle_def build_tree_def Let_def
           split: option.splits prod.splits sum.splits if_splits)

lemma get_lookup_info_keeps_entry:
  assumes "LOOKUP_INFO st k = Some info"
  shows "LOOKUP_INFO (snd (get_lookup_info ds identifier st)) k = Some info"
  using assms
  by (auto simp: get_lookup_info_def cache_to_pickle_def build_tree_def Let_def
           split: option.splits prod.splits sum.splits if_splits)

lemma get_lookup_info_inv:
  assumes "cache_inv st"
  shows "cache_inv (snd (get_lookup_info ds identifier st))"
  using assms
  by (auto simp: get_lookup_info_def cache_to_pickle_def build_tree_def Let_def cache_inv_def map_le_def
           split: option.splits prod.splits sum.splits if_splits)

lemma select_point_errors:
  "select_point info ds lon lat w = Inl e \<Longrightarrow> \<not> pt_rejected e \<and> e \<noteq> ValueError_no_suite_name"
  by (auto simp: select_point_def isel_def cell_def index2_def Let_def wrap_lon_def
           dest: wrap_loop_error
           split: option.splits prod.splits sum.splits if_splits)

lemma sel_state:
  "snd (sel_nearest_to_latlon_pt ds pt w st) =
     (case suite_name ds of None \<Rightarrow> st
      | Some identifier \<Rightarrow>
          (case pt of NotADict \<Rightarrow> st
           | Dict d \<Rightarrow> if d ''lon'' = None \<or> d ''lat'' = None then st
                       else snd (get_lookup_info ds identifier st)))"
  by (auto simp: sel_nearest_to_latlon_pt_def split: option.splits pt_arg.splits prod.splits sum.splits)

lemma sel_keeps_entry:
  "LOOKUP_INFO st k = Some info \<Longrightarrow>
     LOOKUP_INFO (snd (sel_nearest_to_latlon_pt ds pt w st)) k = Some info"
  by (simp add: sel_state get_lookup_info_keeps_entry split: option.splits pt_arg.splits)

lemma sel_inv:
  "cache_inv st \<Longrightarrow> cache_inv (snd (sel_nearest_to_latlon_pt ds pt w st))"
  by (simp add: sel_state get_lookup_info_inv split: option.splits pt_arg.splits)

lemma run_calls_keeps_entry:
  "LOOKUP_INFO st k = Some info \<Longrightarrow> LOOKUP_INFO (run_calls cs st) k = Some info"
proof (induction cs arbitrary: st)
  case Nil
  then show ?case by simp
next
  case (Cons c cs)
  obtain ds pt w where c: "c = (ds, pt, w)" by (cases c)
  from Cons.prems have "LOOKUP_INFO (snd (sel_nearest_to_latlon_pt ds pt w st)) k = Some info"
    by (rule sel_keeps_entry)
  then show ?case unfolding c by (simp add: Cons.IH)
qed

lemma run_calls_inv:
  "cache_inv st \<Longrightarrow> cache_inv (run_calls cs st)"
proof (induction cs arbitrary: st)
  case Nil
  then show ?case by simp
next
  case (Cons c cs)
  obtain ds pt w where c: "c = (ds, pt, w)" by (cases c)
  from Cons.prems have "cache_inv (snd (sel_nearest_to_latlon_pt ds pt w st))"
    by (rule sel_inv)
  then show ?case unfolding c by (simp add: Cons.IH)
qed

section \<open>The nearest point and the flat index\<close>

text \<open>
  \<open>kd_query\<close> returns a position in the list, of a point no farther from the query
  than any other; and the bounds are the least and greatest coordinate.
\<close>

lemma argmin_less: "xs \<noteq> [] \<Longrightarrow> argmin xs < length xs"
  by (induction xs rule: argmin.induct) (auto simp: Let_def)

lemma argmin_least: "i < length xs \<Longrightarrow> xs ! argmin xs \<le> xs ! i"
proof (induction xs arbitrary: i rule: argmin.induct)
  case 1
  then show ?case by simp
next
  case (2 d)
  then show ?case by simp
next
  case (3 d e es)
  show ?case
  proof (cases i)
    case 0
    then show ?thesis by (auto simp: Let_def)
  next
    case (Suc i')
    with 3 have "(e # es) ! argmin (e # es) \<le> (e # es) ! i'" by simp
    with Suc show ?thesis by (auto simp: Let_def)
  qed
qed

lemma kd_query_nearest:
  assumes "pts \<noteq> []"
  shows "kd_query pts q < length pts \<and> list_all (\<lambda>p. sqdist q (pts ! kd_query pts q) \<le> sqdist q p) pts"
proof -
  let ?ds = "map (sqdist q) pts"
  from assms have lt: "argmin ?ds < length pts"
    using argmin_less[of ?ds] by simp
  have "sqdist q (pts ! argmin ?ds) \<le> sqdist q (pts ! i)" if "i < length pts" for i
    using argmin_least[of i ?ds] that lt by simp
  then show ?thesis using lt
    by (auto simp: kd_query_def list_all_length)
qed

lemma amin_Min: "xs \<noteq> [] \<Longrightarrow> amin xs = Min (set xs)"
  by (cases xs) (simp_all add: amin_def Min.set_eq_fold[symmetric])

lemma amax_Max: "xs \<noteq> [] \<Longrightarrow> amax xs = Max (set xs)"
  by (cases xs) (simp_all add: amax_def Max.set_eq_fold[symmetric])

text \<open>
  Row-major flattening puts the element of row \<open>r\<close> and column \<open>c\<close> at position
  \<open>r * n + c\<close>. For axes \<^verbatim>\<open>(y, x)\<close> the column is the x index, and line 134 with
  \<^verbatim>\<open>isel(x=i, y=j)\<close> inverts the flattening: the cell selected is the one at the flat
  index. For axes \<^verbatim>\<open>(x, y)\<close> the same line selects row \<open>k mod n\<close> and column
  \<open>k div n\<close>, the transposed position.
\<close>

lemma concat_nth_rect:
  "list_all (\<lambda>row. length row = n) a \<Longrightarrow> r < length a \<Longrightarrow> c < n \<Longrightarrow>
     concat a ! (r * n + c) = a ! r ! c"
proof (induction a arbitrary: r)
  case Nil
  then show ?case by simp
next
  case (Cons row a)
  show ?case
  proof (cases r)
    case 0
    with Cons.prems show ?thesis by (simp add: nth_append)
  next
    case (Suc r')
    with Cons.prems have "concat a ! (r' * n + c) = a ! r' ! c"
      by (intro Cons.IH) simp_all
    with Suc Cons.prems show ?thesis by (simp add: nth_append add.assoc)
  qed
qed

lemma index2_flat:
  assumes "rect m n a" and "0 < n" and "k < m * n"
  shows "index2 a (k div n) (k mod n) = Inr (flatten a ! k)"
proof -
  from assms have r: "k div n < length a" and c: "k mod n < n"
    by (simp_all add: rect_def less_mult_imp_div_less)
  from assms(1) have all: "list_all (\<lambda>row. length row = n) a" by (simp add: rect_def)
  then have len: "length (a ! (k div n)) = n" using r by (simp add: list_all_length)
  have "concat a ! (k div n * n + k mod n) = a ! (k div n) ! (k mod n)"
    using all r c by (rule concat_nth_rect)
  then have "flatten a ! k = a ! (k div n) ! (k mod n)" by (simp add: flatten_def)
  with r c len show ?thesis by (simp add: index2_def)
qed

lemma shape_rect: "rect m n a \<Longrightarrow> 0 < m \<Longrightarrow> shape a = (m, n)"
  by (cases a) (auto simp: rect_def shape_def)

lemma length_flatten_rect: "rect m n a \<Longrightarrow> length (flatten a) = m * n"
proof (induction a arbitrary: m)
  case Nil
  then show ?case by (simp add: rect_def flatten_def)
next
  case (Cons row a)
  then obtain m' where m: "m = Suc m'" and r: "rect m' n a" and l: "length row = n"
    by (cases m) (auto simp: rect_def)
  from Cons.IH[OF r] l m show ?case by (simp add: flatten_def)
qed

lemma isel_inverts_flattening_yx:
  assumes "ds_dims ds = (''y'', ''x'')" and "rect m n (ds_lon ds)" and "rect m n (ds_lat ds)"
    and "0 < n" and "k < m * n"
  shows "isel ds (k mod snd (shape (ds_lon ds))) (k div snd (shape (ds_lon ds)))
           = Inr \<lparr>pt_lon = flatten (ds_lon ds) ! k, pt_lat = flatten (ds_lat ds) ! k\<rparr>"
proof -
  from assms(4,5) have "0 < m" by (cases m) simp_all
  with assms(2) have sh: "shape (ds_lon ds) = (m, n)" by (rule shape_rect)
  from assms show ?thesis
    by (simp add: sh isel_def cell_def index2_flat)
qed

lemma fresh_index_selects_nearest_yx:
  assumes "ds_dims ds = (''y'', ''x'')" and "rect m n (ds_lon ds)" and "rect m n (ds_lat ds)"
    and "0 < m" and "0 < n"
    and "info = \<lparr>tree = zip (flatten (ds_lon ds)) (flatten (ds_lat ds)), lat_bounds = lb, lon_bounds = ob\<rparr>"
    and "k = kd_query (tree info) q"
  shows "isel ds (k mod snd (shape (ds_lon ds))) (k div snd (shape (ds_lon ds)))
           = Inr \<lparr>pt_lon = fst (tree info ! k), pt_lat = snd (tree info ! k)\<rparr>"
proof -
  from assms(2,3) have len: "length (flatten (ds_lon ds)) = m * n" "length (flatten (ds_lat ds)) = m * n"
    by (simp_all add: length_flatten_rect)
  with assms(4,5,6) have ne: "tree info \<noteq> []" by auto
  from kd_query_nearest[OF ne, of q] assms(6,7) len have k: "k < m * n" by simp
  from k len assms(6) have "tree info ! k = (flatten (ds_lon ds) ! k, flatten (ds_lat ds) ! k)"
    by simp
  with isel_inverts_flattening_yx[OF assms(1,2,3,5) k] show ?thesis by simp
qed

lemma isel_transposes_xy:
  assumes "ds_dims ds = (''x'', ''y'')" and "shape (ds_lon ds) = (m, n)" and "0 < n"
  shows "isel ds (k mod snd (shape (ds_lon ds))) (k div snd (shape (ds_lon ds)))
           = cell ds (k mod n) (k div n)"
  using assms by (simp add: isel_def)

section \<open>Evaluations on the example grids\<close>

lemma grid_yx_name: "suite_name grid_yx = Some ''dini''"
  by (simp add: grid_yx_def)

lemma grid_yx_lookup:
  "get_lookup_info grid_yx ''dini'' process_start = (Inr index_yx, cached_yx)"
  by (simp add: get_lookup_info_def cache_to_pickle_def build_tree_def Let_def process_start_def
        grid_yx_def flatten_def amin_def amax_def index_yx_def cached_yx_def)

lemma grid_yx_query_355:
  "sel_nearest_to_latlon_pt grid_yx (Dict [''lon'' \<mapsto> 355, ''lat'' \<mapsto> 54]) True process_start
     = (Inr \<lparr>pt_lon = 355, pt_lat = 55\<rparr>, cached_yx)"
  by (simp add: sel_nearest_to_latlon_pt_def grid_yx_name grid_yx_lookup)
     (simp add: select_point_def index_yx_def grid_yx_def sel_defs Let_def)

lemma grid_xy_name: "suite_name grid_xy = Some ''xy''"
  by (simp add: grid_xy_def)

lemma grid_xy_lookup:
  "get_lookup_info grid_xy ''xy'' process_start = (Inr index_xy, cached_xy)"
  by (simp add: get_lookup_info_def cache_to_pickle_def build_tree_def Let_def process_start_def
        grid_xy_def flatten_def amin_def amax_def index_xy_def cached_xy_def)

lemma grid_xy_nearest_1: "kd_query (tree index_xy) (0, 55) = 1"
  by (simp add: index_xy_def kd_query_def sqdist_def)

lemma grid_xy_nearest_5: "kd_query (tree index_xy) (20, 55) = 5"
  by (simp add: index_xy_def kd_query_def sqdist_def)

lemma grid_xy_bounds: "lon_bounds index_xy = (0, 20)" "lat_bounds index_xy = (50, 55)"
  by (simp_all add: index_xy_def)

lemma grid_xy_shape: "shape (ds_lon grid_xy) = (3, 2)" "ds_dims grid_xy = (''x'', ''y'')"
  by (simp_all add: grid_xy_def shape_def)

section \<open>The claims\<close>

text \<open>
  C1. With \<^verbatim>\<open>wrap_lon=False\<close>, a dataset that has an identifier and a query point whose
  longitude and latitude lie within the cached bounds, the call does not return the
  sliced dataset: line 132 reads \<^verbatim>\<open>lon_wrapped\<close>, which only the \<^verbatim>\<open>if wrap_lon:\<close> branch
  assigns, and the call raises \<^verbatim>\<open>UnboundLocalError\<close> after the caches were filled.
\<close>

theorem no_wrap_reads_unbound_local:
  assumes "suite_name ds = Some identifier"
    and "d ''lon'' = Some lon" and "d ''lat'' = Some lat"
    and "get_lookup_info ds identifier st = (Inr info, st1)"
    and "fst (lon_bounds info) \<le> lon" and "lon \<le> snd (lon_bounds info)"
    and "fst (lat_bounds info) \<le> lat" and "lat \<le> snd (lat_bounds info)"
  shows "sel_nearest_to_latlon_pt ds (Dict d) False st = (Inl (UnboundLocalError ''lon_wrapped''), st1)"
  using assms by (simp add: sel_nearest_to_latlon_pt_def select_point_def)

theorem no_wrap_reads_unbound_local_witness:
  "sel_nearest_to_latlon_pt grid_yx (Dict [''lon'' \<mapsto> 5, ''lat'' \<mapsto> 54]) False process_start
     = (Inl (UnboundLocalError ''lon_wrapped''), cached_yx)"
proof -
  have name: "suite_name grid_yx = Some ''dini''" by (simp add: grid_yx_def)
  have lon: "[''lon'' \<mapsto> 5::real, ''lat'' \<mapsto> 54] ''lon'' = Some 5" by simp
  have lat: "[''lon'' \<mapsto> 5::real, ''lat'' \<mapsto> 54] ''lat'' = Some 54" by simp
  show ?thesis
    by (rule no_wrap_reads_unbound_local[OF name lon lat grid_yx_lookup])
       (simp_all add: index_yx_def)
qed

text \<open>
  C2. On a grid whose coordinate arrays have the axes \<^verbatim>\<open>(x, y)\<close>, shape \<open>(3, 2)\<close>, so that
  y varies fastest in the flattening, the cell sliced at \<^verbatim>\<open>x = k mod ny, y = k div ny\<close> is
  not the cell at the flat index \<open>k\<close> that the query returned. For the query
  \<open>(0, 55)\<close> the nearest point is at flat index 1 and is \<open>(0, 55)\<close> itself, and the
  call returns the cell \<open>(10, 50)\<close>; for the query \<open>(20, 55)\<close> the nearest point is
  at flat index 5 and the call raises \<^verbatim>\<open>IndexError\<close>.
\<close>

theorem xy_grid_selects_transposed_cell:
  "tree index_xy ! 1 = (0, 55) \<and> kd_query (tree index_xy) (0, 55) = 1
   \<and> sel_nearest_to_latlon_pt grid_xy (Dict [''lon'' \<mapsto> 0, ''lat'' \<mapsto> 55]) True process_start
       = (Inr \<lparr>pt_lon = 10, pt_lat = 50\<rparr>, cached_xy)
   \<and> tree index_xy ! 5 = (20, 55) \<and> kd_query (tree index_xy) (20, 55) = 5
   \<and> sel_nearest_to_latlon_pt grid_xy (Dict [''lon'' \<mapsto> 20, ''lat'' \<mapsto> 55]) True process_start
       = (Inl IndexError, cached_xy)"
proof -
  have cells: "tree index_xy ! 1 = (0, 55)" "tree index_xy ! 5 = (20, 55)"
    by (simp_all add: index_xy_def)
  have wrong: "select_point index_xy grid_xy 0 55 True = Inr \<lparr>pt_lon = 10, pt_lat = 50\<rparr>"
    by (simp add: select_point_def grid_xy_bounds grid_xy_nearest_1 grid_xy_shape wrap_lon_def
          wrap_loop.simps isel_def)
       (simp add: cell_def index2_def grid_xy_def)
  have outside: "select_point index_xy grid_xy 20 55 True = Inl IndexError"
    by (simp add: select_point_def grid_xy_bounds grid_xy_nearest_5 grid_xy_shape wrap_lon_def
          wrap_loop.simps isel_def)
       (simp add: cell_def index2_def grid_xy_def)
  from cells wrong outside show ?thesis
    by (simp add: sel_nearest_to_latlon_pt_def grid_xy_name grid_xy_lookup
          grid_xy_nearest_1 grid_xy_nearest_5)
qed

text \<open>
  C3, as amended. Whenever \<^verbatim>\<open>_wrap_lon\<close> returns on a double that is already within
  the bounds, or on arguments for which the loop's arithmetic is exact (\<open>wrap_exact\<close>:
  the longitude a multiple of \<open>2 ^ - m\<close> with \<open>m \<le> 42\<close>, the longitude and both
  bounds at most \<open>2 ^ 51 / 2 ^ m\<close> in magnitude; \<open>m = 0\<close> are the integer-valued
  longitudes), the returned value is the input plus the returned offset, the offset is
  an integer multiple of 360 (so the returned value is congruent to the input modulo
  360), and \<^verbatim>\<open>wrapped - offset\<close>, computed exactly or on doubles, is the input.
\<close>

theorem wrap_lon_f64_congruence:
  assumes "wrap_lon_f64 lon (a, b) = Some (Inr (wrapped, offset))"
    and "f64_round lon = lon"
    and "(a \<le> lon \<and> lon \<le> b) \<or> wrap_exact m lon a b"
  shows "(\<exists>k::int. offset = 360 * of_int k \<and> wrapped = lon + 360 * of_int k)
         \<and> wrapped - offset = lon
         \<and> f64_round (wrapped - offset) = lon"
proof -
  have "wrap_loop a b lon 0 = Inr (wrapped, offset)"
  proof (cases "a \<le> lon \<and> lon \<le> b")
    case True
    with assms(1) show ?thesis
      by (simp add: wrap_lon_f64_def wrap_loop_f64_within wrap_loop_within)
  next
    case False
    with assms(3) have "wrap_exact m lon a b" by blast
    with assms(1) have "wrap_lon lon (a, b) = Inr (wrapped, offset)"
      by (simp add: wrap_lon_f64_exact)
    then show ?thesis by (simp add: wrap_lon_def)
  qed
  then obtain k :: int where k: "wrapped = lon + 360 * of_int k" "offset = 0 + 360 * of_int k"
    using wrap_loop_congruent by blast
  then have "wrapped - offset = lon" by simp
  with assms(2) k show ?thesis by auto
qed

theorem wrap_lon_f64_congruence_witness:
  "wrap_exact 0 355 (- 10) 10 \<and> f64_round 355 = 355
   \<and> wrap_lon_f64 355 (- 10, 10) = Some (Inr (- 5, - 360))
   \<and> (\<exists>k::int. (- 360::real) = 360 * of_int k \<and> (- 5::real) = 355 + 360 * of_int k)
   \<and> f64_round (- 5 - (- 360)) = 355"
proof -
  have ex: "wrap_exact 0 355 (- 10) 10"
    using wrap_exact_int[of 355 "- 10" 10] by simp
  have dbl: "f64_round 355 = 355"
    using ex by (rule wrap_exact_double)
  have l: "f64_round (- 5) = - 5"
    by (simp add: f64_round_def f64_quantum_def binade_up.simps round_even_def Let_def)
  have r: "f64_round (- 360) = - 360"
    by (simp add: f64_round_def f64_quantum_def binade_up.simps round_even_def Let_def)
  have "wrap_loop_f64 (- 10) 10 355 0 = wrap_loop_f64 (- 10) 10 (f64_round (- 5)) (f64_round (- 360))"
    by (simp add: wrap_loop_f64_above)
  then have run: "wrap_lon_f64 355 (- 10, 10) = Some (Inr (- 5, - 360))"
    by (simp add: wrap_lon_f64_def l r wrap_loop_f64_within)
  from wrap_lon_f64_congruence[OF run dbl disjI2[OF ex]] ex dbl run show ?thesis
    by simp
qed

text \<open>
  The counterexample to C3 as stated: for the double \<^verbatim>\<open>-0.1\<close> and the bounds
  \<open>(0, 360)\<close> the sum \<^verbatim>\<open>lon + 360\<close> rounds. The call returns the offset 360 and a
  wrapped value that differs from the input by less than 360, so it is not congruent to
  the input modulo 360, and \<^verbatim>\<open>wrapped - offset\<close>, computed exactly or on doubles, is
  not the input.
\<close>

theorem wrap_lon_f64_rounding_counterexample:
  "f64_round f64_minus_tenth = f64_minus_tenth
   \<and> wrap_lon_f64 f64_minus_tenth (0, 360)
       = Some (Inr (3165713878692659 / 8796093022208, 360))
   \<and> 3165713878692659 / 8796093022208 - 360 \<noteq> f64_minus_tenth
   \<and> f64_round (3165713878692659 / 8796093022208 - 360) \<noteq> f64_minus_tenth
   \<and> 0 < 3165713878692659 / 8796093022208 - f64_minus_tenth
   \<and> 3165713878692659 / 8796093022208 - f64_minus_tenth < 360"
proof -
  have d: "f64_round f64_minus_tenth = f64_minus_tenth"
    by (simp add: f64_minus_tenth_def f64_round_def f64_quantum_def binade_down.simps
          round_even_def Let_def)
  have l: "f64_round (f64_minus_tenth + 360) = 3165713878692659 / 8796093022208"
    by (simp add: f64_minus_tenth_def f64_round_def f64_quantum_def binade_up.simps
          round_even_def Let_def)
  have r: "f64_round 360 = 360"
    by (simp add: f64_round_def f64_quantum_def binade_up.simps round_even_def Let_def)
  have neg: "f64_minus_tenth < 0" by (simp add: f64_minus_tenth_def)
  have "wrap_loop_f64 0 360 f64_minus_tenth 0
          = wrap_loop_f64 0 360 (f64_round (f64_minus_tenth + 360)) (f64_round 360)"
    using neg by (simp add: wrap_loop_f64_below)
  then have run: "wrap_lon_f64 f64_minus_tenth (0, 360)
       = Some (Inr (3165713878692659 / 8796093022208, 360))"
    by (simp add: wrap_lon_f64_def l r wrap_loop_f64_within)
  have diff: "f64_round (3165713878692659 / 8796093022208 - 360) = - 879609302221 / 8796093022208"
    by (simp add: f64_round_def f64_quantum_def binade_down.simps round_even_def Let_def)
  from d run diff show ?thesis
    by (simp add: f64_minus_tenth_def)
qed

text \<open>
  C4, as amended. For bounds \<open>(a, b)\<close> with \<open>b - a \<ge> 360\<close> and every longitude
  that is already within the bounds or for which the loop's arithmetic is exact (as in
  C3), \<^verbatim>\<open>_wrap_lon\<close> returns: it terminates and does not raise. The returned value
  lies within \<open>[a, b]\<close>, it is the input plus the returned offset, and the offset is
  an integer multiple of 360. A value already within
  the bounds comes back unchanged with offset 0. A value below the bounds comes back
  below \<open>a + 360\<close> with a positive offset, a value above them comes back above
  \<open>b - 360\<close> with a negative offset: the least number of wraps in one direction that
  reaches the bounds; so at most one wrap is applied when the value lies within 360 of
  the bounds. How many wraps are applied depends on how far the value is from the bounds,
  not on the bounds spanning exactly 360.
\<close>

theorem wrap_lon_f64_wide_bounds:
  assumes "360 \<le> b - a"
    and "(a \<le> lon \<and> lon \<le> b) \<or> wrap_exact m lon a b"
  shows "\<exists>wrapped offset. wrap_lon_f64 lon (a, b) = Some (Inr (wrapped, offset))
           \<and> a \<le> wrapped \<and> wrapped \<le> b
           \<and> wrapped = lon + offset \<and> (\<exists>k::int. offset = 360 * of_int k)
           \<and> (a \<le> lon \<and> lon \<le> b \<longrightarrow> wrapped = lon \<and> offset = 0)
           \<and> (lon < a \<longrightarrow> 0 < offset \<and> wrapped < a + 360)
           \<and> (b < lon \<longrightarrow> offset < 0 \<and> b - 360 < wrapped)
           \<and> (a - 360 \<le> lon \<and> lon \<le> b + 360 \<longrightarrow> \<bar>offset\<bar> \<le> 360)"
proof -
  have "wrap_lon_f64 lon (a, b) = Some (wrap_lon lon (a, b))"
  proof (cases "a \<le> lon \<and> lon \<le> b")
    case True
    then show ?thesis
      by (simp add: wrap_lon_f64_def wrap_lon_def wrap_loop_f64_within wrap_loop_within)
  next
    case False
    with assms(2) have "wrap_exact m lon a b" by blast
    then show ?thesis by (rule wrap_lon_f64_exact)
  qed
  with wrap_lon_exact_wide_bounds[OF assms(1), of lon] show ?thesis
    by auto
qed

theorem wrap_lon_f64_wide_bounds_witness:
  "(360::real) \<le> 180 - (- 180) \<and> wrap_exact 0 190 (- 180) 180
   \<and> (\<exists>wrapped offset. wrap_lon_f64 190 (- 180, 180) = Some (Inr (wrapped, offset))
         \<and> - 180 \<le> wrapped \<and> wrapped \<le> 180 \<and> wrapped = 190 + offset
         \<and> offset < 0 \<and> \<bar>offset\<bar> \<le> 360)"
proof -
  have span: "(360::real) \<le> 180 - (- 180)" by simp
  have ex: "wrap_exact 0 190 (- 180) 180"
    using wrap_exact_int[of 190 "- 180" 180] by simp
  from wrap_lon_f64_wide_bounds[OF span disjI2[OF ex]] span ex show ?thesis
    by fastforce
qed

text \<open>
  The counterexample to C4 as stated: the bounds span exactly 360 and two wraps are
  applied to 1000 (the offset is \<open>-720\<close>); and for the finite double \<open>10 ^ 19\<close> and
  the same bounds the loop does not terminate.
\<close>

theorem wrap_lon_f64_wide_bounds_counterexample:
  "wrap_lon_f64 1000 (0, 360) = Some (Inr (280, - 720))
   \<and> f64_round 10000000000000000000 = 10000000000000000000
   \<and> wrap_lon_f64 10000000000000000000 (0, 360) = None"
proof -
  have ex: "wrap_exact 0 1000 0 360"
    using wrap_exact_int[of 1000 0 360] by simp
  then have "wrap_lon_f64 1000 (0, 360) = Some (wrap_lon 1000 (0, 360))"
    by (rule wrap_lon_f64_exact)
  moreover have "wrap_lon 1000 (0, 360) = Inr (280, - 720)"
    by (simp add: wrap_lon_def wrap_loop.simps)
  moreover have "wrap_loop_f64 0 360 10000000000000000000 0 = None"
    by (rule wrap_loop_f64_absorbed) simp_all
  moreover have "f64_round 10000000000000000000 = 10000000000000000000"
    by (simp add: f64_round_def f64_quantum_def binade_up.simps round_even_def Let_def)
  ultimately show ?thesis by (simp add: wrap_lon_f64_def)
qed

text \<open>
  C5, as amended. For bounds spanning less than 360 and a longitude for which the loop's
  arithmetic is exact (as in C3) and that no whole number of 360-degree corrections
  places within the bounds, \<^verbatim>\<open>_wrap_lon\<close> raises its \<^verbatim>\<open>ValueError\<close>: it returns neither a
  value nor runs forever. The guard fires at once, for all doubles: a value below the
  bounds after a negative correction, and a value above them after a positive one, raise
  in that very iteration.
\<close>

theorem wrap_lon_f64_unplaceable_raises:
  assumes "b - a < 360"
    and "\<forall>k::int. \<not> (a \<le> lon + 360 * of_int k \<and> lon + 360 * of_int k \<le> b)"
    and "wrap_exact m lon a b"
  shows "wrap_lon_f64 lon (a, b) = Some (Inl ValueError_wrap)
         \<and> (\<forall>l r. l < a \<and> r < 0 \<longrightarrow> wrap_loop_f64 a b l r = Some (Inl ValueError_wrap))
         \<and> (\<forall>l r. \<not> l < a \<and> b < l \<and> 0 < r \<longrightarrow> wrap_loop_f64 a b l r = Some (Inl ValueError_wrap))"
proof -
  have "wrap_lon_f64 lon (a, b) = Some (wrap_lon lon (a, b))"
    using assms(3) by (rule wrap_lon_f64_exact)
  with wrap_lon_exact_unplaceable[OF assms(2)] show ?thesis
    by (simp add: wrap_loop_f64_below wrap_loop_f64_above)
qed

theorem wrap_lon_f64_unplaceable_raises_witness:
  "(10::real) - (- 10) < 360 \<and> wrap_exact 0 190 (- 10) 10
   \<and> (\<forall>k::int. \<not> ((- 10::real) \<le> 190 + 360 * of_int k \<and> (190::real) + 360 * of_int k \<le> 10))
   \<and> wrap_lon_f64 190 (- 10, 10) = Some (Inl ValueError_wrap)
   \<and> wrap_loop_f64 (- 10) 10 (- 170) (- 360) = Some (Inl ValueError_wrap)"
proof -
  have span: "(10::real) - (- 10) < 360" by simp
  have ex: "wrap_exact 0 190 (- 10) 10"
    using wrap_exact_int[of 190 "- 10" 10] by simp
  have none: "\<forall>k::int. \<not> ((- 10::real) \<le> 190 + 360 * of_int k \<and> (190::real) + 360 * of_int k \<le> 10)"
  proof (intro allI notI)
    fix k :: int
    assume h: "(- 10::real) \<le> 190 + 360 * of_int k \<and> (190::real) + 360 * of_int k \<le> 10"
    show False
    proof (cases "0 \<le> k")
      case True
      then have "(0::real) \<le> of_int k" by simp
      with h show False by linarith
    next
      case False
      then have "k \<le> - 1" by simp
      then have "real_of_int k \<le> - 1" by linarith
      with h show False by linarith
    qed
  qed
  from wrap_lon_f64_unplaceable_raises[OF span none ex] span none ex show ?thesis
    by simp
qed

text \<open>
  The counterexample to C5 as stated: the bounds \<open>(-10, 10)\<close> span less than 360 and
  the double \<open>10 ^ 19\<close>, which is 280 modulo 360, cannot be placed within them; the
  difference \<^verbatim>\<open>lon - 360\<close> rounds back to \<open>10 ^ 19\<close> and the loop does not terminate.
  And the bounds \<open>(360, 719)\<close> span less than 360 and the double \<open>- 2 ^ - 60\<close> cannot
  be placed within them (one wrap leaves it below 360, two wraps put it above 719); the
  sum \<^verbatim>\<open>lon + 360\<close> rounds to 360 and the call returns \<open>(360, 360)\<close>.
\<close>

theorem wrap_lon_f64_absorbed_counterexample:
  "(10::real) - (- 10) < 360
   \<and> (10000000000000000000::int) mod 360 = 280
   \<and> f64_round 10000000000000000000 = 10000000000000000000
   \<and> f64_round (10000000000000000000 - 360) = 10000000000000000000
   \<and> wrap_lon_f64 10000000000000000000 (- 10, 10) = None
   \<and> (719::real) - 360 < 360
   \<and> f64_round (- 1 / 2 ^ 60) = - 1 / 2 ^ 60
   \<and> - 1 / 2 ^ 60 + 360 < (360::real) \<and> (719::real) < - 1 / 2 ^ 60 + 720
   \<and> wrap_lon_f64 (- 1 / 2 ^ 60) (360, 719) = Some (Inr (360, 360))"
proof -
  have "wrap_loop_f64 (- 10) 10 10000000000000000000 0 = None"
    by (rule wrap_loop_f64_absorbed) simp_all
  moreover have "f64_round 10000000000000000000 = 10000000000000000000"
    "f64_round (10000000000000000000 - 360) = 10000000000000000000"
    by (simp_all add: f64_round_def f64_quantum_def binade_up.simps round_even_def Let_def)
  moreover have tiny: "f64_round (- 1 / 2 ^ 60) = - 1 / 2 ^ 60"
    by (simp add: f64_round_def f64_quantum_def binade_down.simps round_even_def Let_def)
  moreover have "wrap_lon_f64 (- 1 / 2 ^ 60) (360, 719) = Some (Inr (360, 360))"
  proof -
    have l: "f64_round (- 1 / 2 ^ 60 + 360) = 360"
      by (simp add: f64_round_def f64_quantum_def binade_up.simps round_even_def Let_def)
    have r: "f64_round 360 = 360"
      by (simp add: f64_round_def f64_quantum_def binade_up.simps round_even_def Let_def)
    have "wrap_loop_f64 360 719 (- 1 / 2 ^ 60) 0
            = wrap_loop_f64 360 719 (f64_round (- 1 / 2 ^ 60 + 360)) (f64_round 360)"
      by (subst wrap_loop_f64_below) simp_all
    then show ?thesis
      by (simp only: wrap_lon_f64_def fst_conv snd_conv l r) (simp add: wrap_loop_f64_within)
  qed
  ultimately show ?thesis by (simp add: wrap_lon_f64_def)
qed



text \<open>
  C7, as amended. For a dataset that has an identifier: an argument that is not a dict
  raises \<^verbatim>\<open>TypeError\<close>; a dict without the key \<^verbatim>\<open>lon\<close> raises \<^verbatim>\<open>KeyError\<close> for
  \<^verbatim>\<open>lon\<close>, a dict with \<^verbatim>\<open>lon\<close> and without \<^verbatim>\<open>lat\<close> raises \<^verbatim>\<open>KeyError\<close> for \<^verbatim>\<open>lat\<close>,
  all three with the state unchanged; and every dict that has both keys passes, whatever
  other keys it carries: the call raises none of these exceptions.
\<close>

theorem pt_validation:
  assumes "suite_name ds = Some identifier"
  shows "sel_nearest_to_latlon_pt ds NotADict wrap_lon_flag st = (Inl TypeError_pt_not_dict, st)
         \<and> (d ''lon'' = None \<longrightarrow>
              sel_nearest_to_latlon_pt ds (Dict d) wrap_lon_flag st = (Inl (KeyError ''lon''), st))
         \<and> (d ''lon'' \<noteq> None \<and> d ''lat'' = None \<longrightarrow>
              sel_nearest_to_latlon_pt ds (Dict d) wrap_lon_flag st = (Inl (KeyError ''lat''), st))
         \<and> (d ''lon'' \<noteq> None \<and> d ''lat'' \<noteq> None \<longrightarrow>
              (\<forall>e. fst (sel_nearest_to_latlon_pt ds (Dict d) wrap_lon_flag st) = Inl e
                     \<longrightarrow> \<not> pt_rejected e))"
proof -
  have "\<not> pt_rejected e"
    if "d ''lon'' = Some lon" "d ''lat'' = Some lat"
      and "fst (sel_nearest_to_latlon_pt ds (Dict d) wrap_lon_flag st) = Inl e" for lon lat e
  proof -
    obtain r st1 where g: "get_lookup_info ds identifier st = (r, st1)"
      by (cases "get_lookup_info ds identifier st")
    show ?thesis
    proof (cases r)
      case (Inl e')
      with g that assms have "e = e'" by (simp add: sel_nearest_to_latlon_pt_def)
      moreover from g Inl have "e' = ValueError_empty_grid" using get_lookup_info_Inl by blast
      ultimately show ?thesis by simp
    next
      case (Inr info)
      with g that assms have "select_point info ds lon lat wrap_lon_flag = Inl e"
        by (simp add: sel_nearest_to_latlon_pt_def)
      then show ?thesis using select_point_errors by blast
    qed
  qed
  with assms show ?thesis
    by (auto simp: sel_nearest_to_latlon_pt_def)
qed

theorem pt_validation_witness:
  "suite_name grid_yx = Some ''dini''
   \<and> sel_nearest_to_latlon_pt grid_yx NotADict True process_start = (Inl TypeError_pt_not_dict, process_start)
   \<and> sel_nearest_to_latlon_pt grid_yx (Dict [''lat'' \<mapsto> 54]) True process_start
       = (Inl (KeyError ''lon''), process_start)
   \<and> sel_nearest_to_latlon_pt grid_yx (Dict [''lon'' \<mapsto> 5]) True process_start
       = (Inl (KeyError ''lat''), process_start)"
proof -
  have name: "suite_name grid_yx = Some ''dini''" by (simp add: grid_yx_def)
  from pt_validation[OF name, of True process_start "[''lat'' \<mapsto> 54]"]
       pt_validation[OF name, of True process_start "[''lon'' \<mapsto> 5]"] name
  show ?thesis by simp
qed

text \<open>
  The counterexample to C7 as stated: a dict with the extra key \<^verbatim>\<open>height\<close> is accepted
  and the call returns a point.
\<close>

theorem extra_keys_accepted_counterexample:
  "[''lon'' \<mapsto> 355::real, ''lat'' \<mapsto> 54, ''height'' \<mapsto> 2] ''height'' = Some 2
   \<and> fst (sel_nearest_to_latlon_pt grid_yx (Dict [''lon'' \<mapsto> 355, ''lat'' \<mapsto> 54, ''height'' \<mapsto> 2])
            True process_start) = Inr \<lparr>pt_lon = 355, pt_lat = 55\<rparr>"
  by (simp add: sel_nearest_to_latlon_pt_def grid_yx_name grid_yx_lookup)
     (simp add: select_point_def index_yx_def grid_yx_def sel_defs Let_def)

text \<open>
  C8. A dataset without the identifier attribute makes the call raise the
  \<^verbatim>\<open>ValueError\<close> of line 90 with the state unchanged: no entry of the in-memory or of
  the durable cache is created, and the trace is the same, so no file was tested or read
  and nothing was built.
\<close>

theorem missing_suite_name_fails_fast:
  assumes "suite_name ds = None"
  shows "sel_nearest_to_latlon_pt ds pt wrap_lon_flag st = (Inl ValueError_no_suite_name, st)"
  using assms by (simp add: sel_nearest_to_latlon_pt_def)

theorem missing_suite_name_fails_fast_witness:
  "suite_name grid_anonymous = None
   \<and> sel_nearest_to_latlon_pt grid_anonymous (Dict [''lon'' \<mapsto> 0, ''lat'' \<mapsto> 54]) True process_start
       = (Inl ValueError_no_suite_name, process_start)"
proof -
  have none: "suite_name grid_anonymous = None"
    by (simp add: grid_anonymous_def)
  from missing_suite_name_fails_fast[OF none] none show ?thesis by simp
qed

text \<open>
  C9. Once the in-memory cache holds an entry for an identifier, then after any further
  calls, a call on a dataset with that identifier leaves the state as it is (the trace
  included: \<^verbatim>\<open>build_tree\<close> is not run and no pickle file is tested or read), and with a
  well-formed point its result is computed from the entry held, whatever coordinates the
  dataset has. In the witness the entry comes from a first call on one grid, and the call
  on a second grid with the same identifier and other coordinates is answered from the
  first grid's index and bounds.
\<close>

theorem in_memory_entry_is_reused:
  assumes "LOOKUP_INFO st0 identifier = Some info" and "suite_name ds = Some identifier"
    and "st = run_calls cs st0"
  shows "snd (sel_nearest_to_latlon_pt ds pt wrap_lon_flag st) = st
         \<and> (\<forall>d lon lat. pt = Dict d \<and> d ''lon'' = Some lon \<and> d ''lat'' = Some lat \<longrightarrow>
               fst (sel_nearest_to_latlon_pt ds pt wrap_lon_flag st)
                 = select_point info ds lon lat wrap_lon_flag)"
proof -
  from assms(1,3) have hit: "LOOKUP_INFO st identifier = Some info"
    by (simp add: run_calls_keeps_entry)
  then have "get_lookup_info ds identifier st = (Inr info, st)"
    by (rule get_lookup_info_hit)
  with assms(2) show ?thesis
    by (auto simp: sel_nearest_to_latlon_pt_def split: pt_arg.splits option.splits)
qed

theorem in_memory_entry_is_reused_witness:
  "LOOKUP_INFO cached_yx ''dini'' = Some index_yx \<and> suite_name grid_moved = Some ''dini''
   \<and> cached_yx = run_calls [(grid_yx, Dict [''lon'' \<mapsto> 355, ''lat'' \<mapsto> 54], True)] process_start
   \<and> snd (sel_nearest_to_latlon_pt grid_moved (Dict [''lon'' \<mapsto> 5, ''lat'' \<mapsto> 54]) True cached_yx) = cached_yx
   \<and> fst (sel_nearest_to_latlon_pt grid_moved (Dict [''lon'' \<mapsto> 5, ''lat'' \<mapsto> 54]) True cached_yx)
       = Inr \<lparr>pt_lon = 115, pt_lat = 65\<rparr>"
proof -
  have mem: "LOOKUP_INFO cached_yx ''dini'' = Some index_yx"
    by (simp add: cached_yx_def)
  have name: "suite_name grid_moved = Some ''dini''"
    by (simp add: grid_moved_def)
  have run: "cached_yx = run_calls [(grid_yx, Dict [''lon'' \<mapsto> 355, ''lat'' \<mapsto> 54], True)] process_start"
    by (simp add: grid_yx_query_355)
  have stale: "select_point index_yx grid_moved 5 54 True = Inr \<lparr>pt_lon = 115, pt_lat = 65\<rparr>"
    by (simp add: select_point_def index_yx_def grid_moved_def sel_defs Let_def)
  from in_memory_entry_is_reused[OF mem name, of cached_yx "[]"
         "Dict [''lon'' \<mapsto> 5, ''lat'' \<mapsto> 54]" True] mem name run stale
  show ?thesis by simp
qed

text \<open>
  C10. In a process that started with an empty in-memory cache, when a call on a dataset
  with an identifier and a dict point raises one of the out-of-bounds errors, the state
  it leaves holds an entry for the identifier in the in-memory cache and the same entry
  in the durable cache.
\<close>

theorem out_of_bounds_after_caching:
  assumes "LOOKUP_INFO st0 = Map.empty" and "st = run_calls cs st0"
    and "suite_name ds = Some identifier"
    and "sel_nearest_to_latlon_pt ds (Dict d) wrap_lon_flag st = (Inl e, st')"
    and "out_of_bounds e"
  shows "\<exists>info. LOOKUP_INFO st' identifier = Some info \<and> pickle_files st' identifier = Some info"
proof -
  from assms(1) have "cache_inv st0" by (simp add: cache_inv_def)
  with assms(2) have inv: "cache_inv st" by (simp add: run_calls_inv)
  from assms(3,4,5) obtain lon lat where d: "d ''lon'' = Some lon" "d ''lat'' = Some lat"
    by (auto simp: sel_nearest_to_latlon_pt_def split: option.splits)
  obtain r st1 where g: "get_lookup_info ds identifier st = (r, st1)"
    by (cases "get_lookup_info ds identifier st")
  show ?thesis
  proof (cases r)
    case (Inl e')
    with g assms(3,4) d have "e = e'" by (simp add: sel_nearest_to_latlon_pt_def)
    moreover from g Inl have "e' = ValueError_empty_grid" using get_lookup_info_Inl by blast
    ultimately show ?thesis using assms(5) by simp
  next
    case (Inr info)
    with g assms(3,4) d have st': "st' = st1" by (simp add: sel_nearest_to_latlon_pt_def)
    from g Inr have mem: "LOOKUP_INFO st1 identifier = Some info" using get_lookup_info_Inr by blast
    from get_lookup_info_inv[OF inv, of ds "identifier"] g have "cache_inv st1" by simp
    with mem have "pickle_files st1 identifier = Some info"
      by (auto simp: cache_inv_def map_le_def dom_def)
    with mem st' show ?thesis by blast
  qed
qed

theorem out_of_bounds_after_caching_witness:
  "LOOKUP_INFO process_start = Map.empty \<and> out_of_bounds ValueError_lat_bounds
   \<and> sel_nearest_to_latlon_pt grid_yx (Dict [''lon'' \<mapsto> 0, ''lat'' \<mapsto> 95]) True process_start
       = (Inl ValueError_lat_bounds, cached_yx)
   \<and> (\<exists>info. LOOKUP_INFO cached_yx ''dini'' = Some info \<and> pickle_files cached_yx ''dini'' = Some info)"
proof -
  have start: "LOOKUP_INFO process_start = Map.empty" by (simp add: process_start_def)
  have run: "process_start = run_calls [] process_start" by simp
  have name: "suite_name grid_yx = Some ''dini''" by (simp add: grid_yx_def)
  have call: "sel_nearest_to_latlon_pt grid_yx (Dict [''lon'' \<mapsto> 0, ''lat'' \<mapsto> 95]) True process_start
       = (Inl ValueError_lat_bounds, cached_yx)"
    by (simp add: sel_nearest_to_latlon_pt_def grid_yx_name grid_yx_lookup)
       (simp add: select_point_def index_yx_def wrap_lon_def wrap_loop.simps)
  have oob: "out_of_bounds ValueError_lat_bounds" by simp
  from out_of_bounds_after_caching[OF start run name call oob] start call oob show ?thesis
    by simp
qed

end
